theory Spec2Isabelle
  imports Complex_Main "HOL-Library.Sublist"
begin

section \<open>terark-db: the NestLoudsTrieStore of dfadb (nlt\_store.cpp)\<close>

text \<open>
  A shallow embedding of \<^verbatim>\<open>src/terark/db/dfadb/nlt_store.cpp\<close>: the sample-ratio
  arithmetic and the two passes of \<^verbatim>\<open>NestLoudsTrieStore::build_by_iter\<close>, the helper
  \<^verbatim>\<open>emptyCheckProtect\<close>, and \<^verbatim>\<open>load\<close>/\<open>save\<close>.

  Conventions of the model:
  \<^item> a record (\<^verbatim>\<open>valvec<byte>\<close>, \<^verbatim>\<open>fstring\<close>) and a path are byte strings, \<open>string\<close>;
  \<^item> record ids (\<^verbatim>\<open>llong\<close>, \<^verbatim>\<open>size_t\<close>) are natural numbers: they index bitmaps and
    stores that exist in memory, so 64-bit wrap-around is out of reach;
  \<^item> \<^verbatim>\<open>double\<close> arithmetic is taken over the reals, but for the conversion of
    \<open>2^64 - 1\<close> to \<^verbatim>\<open>double\<close>, which gives \<open>2^64\<close>;
  \<^item> every call on the iterator, the ZipBuilder, the mutex and \<^verbatim>\<open>stderr\<close> is an \<open>event\<close>;
    a run of \<^verbatim>\<open>build_by_iter\<close> is the list of its events together with how it ended;
  \<^item> a thrown exception, a failed \<^verbatim>\<open>assert\<close> and \<^verbatim>\<open>abort()\<close> are values of \<open>failure\<close>;
  \<^item> \<open>build_by_iter\<close> is the run in which no call on the iterator or the ZipBuilder
    throws; \<open>build_by_iter_throwing\<close> is the run in which one of them does.
\<close>

type_synonym bytes = string

datatype failure =
    InvalidArgument    \<comment> \<open>\<^verbatim>\<open>std::invalid_argument\<close> thrown (\<^verbatim>\<open>TERARK_RT_assert\<close>, \<^verbatim>\<open>THROW_STD\<close>)\<close>
  | AssertionFailed    \<comment> \<open>a failed \<^verbatim>\<open>assert(...)\<close>: the process is aborted\<close>
  | Abort              \<comment> \<open>\<^verbatim>\<open>abort()\<close>: the process is terminated\<close>
  | IOError            \<comment> \<open>an exception of the iterator, the ZipBuilder or the persistence
                           layer, passed on to the caller as it is\<close>

text \<open>An exception unwinds to the caller; \<^verbatim>\<open>abort()\<close> and a failed \<^verbatim>\<open>assert\<close> end the process.\<close>

fun terminates_process :: "failure \<Rightarrow> bool" where
  "terminates_process InvalidArgument = False"
| "terminates_process AssertionFailed = True"
| "terminates_process Abort = True"
| "terminates_process IOError = False"

subsection \<open>The effective sample ratio (lines 132--141, 165--166)\<close>

definition FLT_EPSILON :: real where
  "FLT_EPSILON = 1 / 2 ^ 23"

definition INT32_MAX :: int where
  "INT32_MAX = 2 ^ 31 - 1"

text \<open>
  \<^verbatim>\<open>double sampleRatio = schema.m_dictZipSampleRatio > FLT_EPSILON
                     ? schema.m_dictZipSampleRatio : 0.05;
  llong dataSize = iter.getStore()->dataInflateSize();
  if (dataSize * sampleRatio >= INT32_MAX * 0.95)
      sampleRatio = INT32_MAX * 0.95 / dataSize;
  sampleRatio = std::min(sampleRatio, 0.5);\<close>
\<close>

definition sampleRatio :: "real \<Rightarrow> int \<Rightarrow> real" where
  "sampleRatio m_dictZipSampleRatio dataSize =
     (let r = (if m_dictZipSampleRatio > FLT_EPSILON then m_dictZipSampleRatio else 0.05);
          r = (if real_of_int dataSize * r \<ge> real_of_int INT32_MAX * 0.95
               then real_of_int INT32_MAX * 0.95 / real_of_int dataSize else r)
      in min r 0.5)"

text \<open>
  \<^verbatim>\<open>uint64_t sampleUpperBound = random.min() + (random.max() - random.min()) * sampleRatio;\<close>
  with \<^verbatim>\<open>std::mt19937_64\<close>: \<open>min = 0\<close>, \<open>max = 2^64 - 1\<close>. The product is taken in
  \<^verbatim>\<open>double\<close>: the conversion of the 64-bit integer \<open>2^64 - 1\<close> rounds it to \<open>2^64\<close>, the
  product of a \<^verbatim>\<open>double\<close> with a power of two is exact, and the conversion of the sum to
  \<^verbatim>\<open>uint64_t\<close> truncates.
\<close>

definition sampleUpperBound :: "real \<Rightarrow> nat" where
  "sampleUpperBound r = nat \<lfloor>0 + real_of_int (2 ^ 64) * r\<rfloor>"

subsection \<open>load and save (lines 258--281)\<close>

text \<open>
  \<^verbatim>\<open>fstring::endsWith\<close> is declared in the terark headers, outside this file; it is taken
  to be the suffix test its name says.
\<close>

definition endsWith :: "string \<Rightarrow> string \<Rightarrow> bool" where
  "endsWith s x = (length x \<le> length s \<and> drop (length s - length x) s = x)"

text \<open>
  Modelled from the spec: the store is "one of several backend variants, each persisted
  only by its own serializer"; the classes themselves are declared outside this file. A
  variant is the dynamic type of \<^verbatim>\<open>*m_store\<close> as the chain of \<^verbatim>\<open>dynamic_cast\<close>s of
  \<^verbatim>\<open>save\<close> tells it apart: a \<^verbatim>\<open>BaseDFA\<close> (the nested louds tries), a
  \<^verbatim>\<open>FastZipBlobStore\<close>, a \<^verbatim>\<open>DictZipBlobStore\<close>, or any other \<^verbatim>\<open>BlobStore\<close>.
\<close>

datatype backend = BaseDFA | FastZipBlobStore | DictZipBlobStore | OtherBlobStore

record blob_store =
  variant :: backend
  payload :: "bytes list"

text \<open>
  Modelled from the spec: the persisted artifact is "one self-describing file per store
  instance", from which \<^verbatim>\<open>load\<close> reconstructs the store given only the path. The file
  system is a map from paths to the stores written there: \<^verbatim>\<open>save_mmap\<close> of each backend
  writes the store to the path it is given, and \<^verbatim>\<open>BlobStore::load_from\<close> reads the store
  at a path back (both are defined in the blob store library, outside this file). The
  serializer that wrote a file is kept with it.
\<close>

type_synonym filesystem = "string \<rightharpoonup> (backend \<times> blob_store)"

definition load_fpath :: "string \<Rightarrow> string" where
  "load_fpath path = (if endsWith path ''.nlt'' then path else path @ ''.nlt'')"

definition save_fpath :: "string \<Rightarrow> string" where
  "save_fpath path = (if endsWith path ''.nlt'' then path else path @ ''.nlt'')"

definition load :: "string \<Rightarrow> filesystem \<Rightarrow> failure + blob_store" where
  "load path fs =
     (let fpath = load_fpath path
      in case fs fpath of None \<Rightarrow> Inl IOError | Some (ser, st) \<Rightarrow> Inr st)"

definition save :: "blob_store \<Rightarrow> string \<Rightarrow> filesystem \<Rightarrow> failure + filesystem" where
  "save m_store path fs =
     (let fpath = save_fpath path
      in if variant m_store = BaseDFA then Inr (fs(fpath \<mapsto> (BaseDFA, m_store)))
         else if variant m_store = FastZipBlobStore then Inr (fs(fpath \<mapsto> (FastZipBlobStore, m_store)))
         else if variant m_store = DictZipBlobStore then Inr (fs(fpath \<mapsto> (DictZipBlobStore, m_store)))
         else Inl InvalidArgument)"

subsection \<open>The source iterator and the bitmaps\<close>

text \<open>
  \<^verbatim>\<open>StoreIterator\<close> and the store behind it are abstract interfaces declared outside this
  file, so an iterator is taken as what its virtual calls answer:
  \<^item> \<open>getStore\<close>: the store (\<open>None\<close> for \<^verbatim>\<open>nullptr\<close>), with its \<^verbatim>\<open>dataInflateSize()\<close> and
    \<^verbatim>\<open>numDataRows()\<close>;
  \<^item> \<open>increments\<close>: the (id, record) pairs that successive calls of \<^verbatim>\<open>increment\<close> yield
    from the start; once they are used up \<^verbatim>\<open>increment\<close> returns false and leaves its
    out-parameters as they were; \<^verbatim>\<open>reset()\<close> goes back to the start of the same sequence;
  \<^item> \<open>seekExact\<close>: the record \<^verbatim>\<open>seekExact(id, &rec)\<close> finds, \<open>None\<close> when it returns false.
\<close>

record source_store =
  dataInflateSize :: int
  numDataRows :: nat

record store_iterator =
  getStore :: "source_store option"
  increments :: "(nat \<times> bytes) list"
  seekExact :: "nat \<Rightarrow> bytes option"

text \<open>
  Modelled from the spec: the SourceStore of the data model, "an ordered, 0-based
  physical-id sequence of byte-string records" with sequential traversal, random access
  by physical id and restart. It is the iterator used for concrete runs.
\<close>

definition store_of :: "bytes list \<Rightarrow> store_iterator" where
  "store_of recs =
     \<lparr> getStore = Some \<lparr> dataInflateSize = int (sum_list (map length recs)),
                         numDataRows = length recs \<rparr>,
       increments = zip [0 ..< length recs] recs,
       seekExact = (\<lambda>i. if i < length recs then Some (recs ! i) else None) \<rparr>"

text \<open>
  \<^verbatim>\<open>isDel\<close> is a raw pointer to bitmap words, with no length: a bitmap that answers at every
  index, or \<open>None\<close> for \<^verbatim>\<open>NULL\<close>. \<^verbatim>\<open>isPurged\<close> is a \<^verbatim>\<open>febitvec\<close>, which knows its size: a
  list of bits, read below its length only.
\<close>

definition terark_bit_test :: "(nat \<Rightarrow> bool) \<Rightarrow> nat \<Rightarrow> bool" where
  "terark_bit_test bm i = bm i"

subsection \<open>Events of a build\<close>

text \<open>The three messages \<^verbatim>\<open>build_by_iter\<close> prints on \<^verbatim>\<open>stderr\<close>, with the values printed.\<close>

datatype diag =
    ErrSeekExact nat nat nat nat
      \<comment> \<open>line 201: logicId, physicId, logicNum, physicNum\<close>
  | ErrPhysicNum nat nat nat nat
      \<comment> \<open>lines 220 and 247: \<^verbatim>\<open>__LINE__\<close> (222 or 249), physicId, physicNum, logicNum\<close>
  | ErrIncrement bool nat nat int nat nat
      \<comment> \<open>line 234: hasData, logicId, physicId, physicId2, physicNum, logicNum\<close>

text \<open>
  \<open>Visit l p\<close> and \<open>Candidate l p\<close> are observations of the loop variables, not calls:
  \<open>Visit l p\<close> says that a pass handles the record with physical id \<open>p\<close> as logical id
  \<open>l\<close> (the index at which the bitmaps are tested); \<open>Candidate l p\<close> says that pass 1
  holds the record of a live id and reaches the sampling test with it.
  \<open>AddRecord l p r\<close> is the call \<^verbatim>\<open>builder->addRecord(r)\<close>, tagged with the logical id \<open>l\<close>
  and with the physical id \<open>p\<close> under which the iterator yielded \<open>r\<close> (\<^verbatim>\<open>recId\<close> at line
  184, \<^verbatim>\<open>physicId2\<close> at line 241).
\<close>

datatype event =
    Visit nat nat
  | Candidate nat nat
  | Increment                  \<comment> \<open>\<^verbatim>\<open>iter.increment(&id, &rec)\<close>\<close>
  | SeekExact nat              \<comment> \<open>\<^verbatim>\<open>iter.seekExact(physicId, &rec)\<close>\<close>
  | AddSample bytes            \<comment> \<open>\<^verbatim>\<open>builder->addSample(rec)\<close>\<close>
  | Stderr diag                \<comment> \<open>\<^verbatim>\<open>fprintf(stderr, ...)\<close>\<close>
  | Lock                       \<comment> \<open>\<^verbatim>\<open>lock.lock()\<close> on \<^verbatim>\<open>DictZip_reduceMemMutex()\<close>\<close>
  | Prepare nat string         \<comment> \<open>\<^verbatim>\<open>builder->prepare(records, fpath)\<close>\<close>
  | IterReset                  \<comment> \<open>\<^verbatim>\<open>iter.reset()\<close>\<close>
  | AddRecord nat nat bytes
  | CompleteBuild              \<comment> \<open>\<^verbatim>\<open>zds->completeBuild(*builder)\<close>\<close>
  | BuilderReset               \<comment> \<open>\<^verbatim>\<open>builder.reset()\<close>\<close>
  | Unlock                     \<comment> \<open>\<^verbatim>\<open>lock.unlock()\<close>\<close>

text \<open>\<open>Completed\<close>: the function returned, and \<^verbatim>\<open>m_store\<close> holds the new store.\<close>

datatype outcome = Completed | Failed failure

subsection \<open>emptyCheckProtect (lines 113--121)\<close>

definition emptyCheckProtect :: "nat \<Rightarrow> bytes \<Rightarrow> event list" where
  "emptyCheckProtect sampleLenSum r =
     (if 0 = sampleLenSum
      then (if r = [] then [AddSample ''Hello World!''] else [AddSample r])
      else [])"

subsection \<open>The local variables of build\_by\_iter\<close>

text \<open>
  \<open>draws\<close> counts the calls of \<^verbatim>\<open>random()\<close> so far: the generator is a parameter
  \<open>rnd\<close>, the sequence of its outputs, and the next output is \<open>rnd (draws st)\<close>.
  \<open>cursor\<close> is what the iterator still has to yield.
\<close>

record locals =
  rec :: bytes
  draws :: nat
  sampled :: nat
  recId :: nat
  physicId :: nat
  newPhysicId :: nat
  cursor :: "(nat \<times> bytes) list"

text \<open>
  \<^verbatim>\<open>if (!rec.empty() && random() < sampleUpperBound) { builder->addSample(rec); sampled++; }\<close>
  (lines 172--175 and 210--213); \<^verbatim>\<open>&&\<close> draws a number only for a non-empty record.
\<close>

definition sample_record :: "nat \<Rightarrow> (nat \<Rightarrow> nat) \<Rightarrow> locals \<Rightarrow> event list \<times> locals" where
  "sample_record ub rnd st =
     (if rec st \<noteq> [] then
        (if rnd (draws st) < ub
         then ([AddSample (rec st)], st\<lparr>draws := Suc (draws st), sampled := Suc (sampled st)\<rparr>)
         else ([], st\<lparr>draws := Suc (draws st)\<rparr>))
      else ([], st))"

text \<open>\<^verbatim>\<open>NULL == isDel || !terark_bit_test(isDel, recId)\<close>\<close>

definition not_deleted :: "(nat \<Rightarrow> bool) option \<Rightarrow> nat \<Rightarrow> bool" where
  "not_deleted isDel i = (case isDel of None \<Rightarrow> True | Some bm \<Rightarrow> \<not> terark_bit_test bm i)"

subsection \<open>Without a purge bitmap (lines 168--186)\<close>

text \<open>
  The body of \<^verbatim>\<open>while (iter.increment(&recId, &rec))\<close> of pass 1, lines 171--176, for
  the pair \<open>(i, r)\<close> that \<^verbatim>\<open>increment\<close> has just stored in \<^verbatim>\<open>recId\<close> and \<^verbatim>\<open>rec\<close>.
\<close>

definition sampling_step ::
  "(nat \<Rightarrow> bool) option \<Rightarrow> nat \<Rightarrow> (nat \<Rightarrow> nat) \<Rightarrow> nat \<Rightarrow> bytes \<Rightarrow> locals
   \<Rightarrow> event list \<times> locals" where
  "sampling_step isDel ub rnd i r st =
     (let st1 = st\<lparr>recId := i, rec := r\<rparr>
      in if not_deleted isDel i
         then (case sample_record ub rnd st1 of
                 (ev, st2) \<Rightarrow> (Visit i i # Candidate i i # ev, st2))
         else ([Visit i i], st1))"

text \<open>
  The loop, over what the iterator yields: each turn starts with a call of \<^verbatim>\<open>increment\<close>,
  and the last call returns false.
\<close>

fun sampling_pass ::
  "(nat \<Rightarrow> bool) option \<Rightarrow> nat \<Rightarrow> (nat \<Rightarrow> nat) \<Rightarrow> (nat \<times> bytes) list \<Rightarrow> locals
   \<Rightarrow> event list \<times> locals" where
  "sampling_pass isDel ub rnd [] st = ([Increment], st)"
| "sampling_pass isDel ub rnd ((i, r) # rest) st =
     (case sampling_step isDel ub rnd i r st of
        (ev, st1) \<Rightarrow>
          (case sampling_pass isDel ub rnd rest st1 of
             (evs, st2) \<Rightarrow> (Increment # ev @ evs, st2)))"

text \<open>The second \<^verbatim>\<open>while (iter.increment(&recId, &rec))\<close>, lines 182--186.\<close>

fun recording_pass :: "(nat \<Rightarrow> bool) option \<Rightarrow> (nat \<times> bytes) list \<Rightarrow> event list" where
  "recording_pass isDel [] = [Increment]"
| "recording_pass isDel ((i, r) # rest) =
     Increment # Visit i i # (if not_deleted isDel i then [AddRecord i i r] else [])
       @ recording_pass isDel rest"

subsection \<open>With a purge bitmap (lines 189--250)\<close>

text \<open>
  \<^verbatim>\<open>for (size_t logicId = 0; logicId < logicNum; ++logicId) body\<close>, where the body may
  end the run (\<^verbatim>\<open>abort()\<close>).
\<close>

function for_loop ::
  "(nat \<Rightarrow> 's \<Rightarrow> event list \<times> (failure + 's)) \<Rightarrow> nat \<Rightarrow> nat \<Rightarrow> 's
   \<Rightarrow> event list \<times> (failure + 's)" where
  "for_loop body logicNum logicId st =
     (if logicId < logicNum then
        (case body logicId st of
           (ev, Inl f) \<Rightarrow> (ev, Inl f)
         | (ev, Inr st1) \<Rightarrow>
             (case for_loop body logicNum (Suc logicId) st1 of
                (evs, res) \<Rightarrow> (ev @ evs, res)))
      else ([], Inr st))"
  by pat_completeness auto
termination
  by (relation "measure (\<lambda>(body, logicNum, logicId, st). logicNum - logicId)") auto

declare for_loop.simps [simp del]

text \<open>The body of the loop of pass 1, lines 197--217.\<close>

definition sampling_body ::
  "store_iterator \<Rightarrow> (nat \<Rightarrow> bool) \<Rightarrow> bool list \<Rightarrow> nat \<Rightarrow> (nat \<Rightarrow> nat) \<Rightarrow> nat
   \<Rightarrow> nat \<Rightarrow> locals \<Rightarrow> event list \<times> (failure + locals)" where
  "sampling_body it isDel isPurged ub rnd physicNum logicId st =
     (if \<not> isPurged ! logicId then
        (if \<not> terark_bit_test isDel logicId then
           (case seekExact it (physicId st) of
              None \<Rightarrow>
                ([SeekExact (physicId st), Visit logicId (physicId st),
                  Stderr (ErrSeekExact logicId (physicId st) (length isPurged) physicNum)],
                 Inl Abort)
            | Some r \<Rightarrow>
                (case sample_record ub rnd (st\<lparr>rec := r\<rparr>) of
                   (ev, st2) \<Rightarrow>
                     (SeekExact (physicId st) # Visit logicId (physicId st)
                        # Candidate logicId (physicId st) # ev,
                      Inr (st2\<lparr>newPhysicId := Suc (newPhysicId st2),
                               physicId := Suc (physicId st2)\<rparr>))))
         else ([Visit logicId (physicId st)], Inr (st\<lparr>physicId := Suc (physicId st)\<rparr>)))
      else ([], Inr st))"

text \<open>\<^verbatim>\<open>llong physicId2 = -1; bool hasData = iter.increment(&physicId2, &rec);\<close>\<close>

definition increment :: "locals \<Rightarrow> bool \<times> int \<times> locals" where
  "increment st =
     (case cursor st of
        [] \<Rightarrow> (False, - 1, st)
      | (i, r) # rest \<Rightarrow> (True, int i, st\<lparr>rec := r, cursor := rest\<rparr>))"

text \<open>The body of the loop of pass 2, lines 230--244.\<close>

definition recording_body ::
  "(nat \<Rightarrow> bool) \<Rightarrow> bool list \<Rightarrow> nat \<Rightarrow> nat \<Rightarrow> locals \<Rightarrow> event list \<times> (failure + locals)" where
  "recording_body isDel isPurged physicNum logicId st =
     (if \<not> isPurged ! logicId then
        (case increment st of
           (hasData, physicId2, st1) \<Rightarrow>
             if \<not> hasData \<or> int (physicId st1) \<noteq> physicId2 then
               ([Increment, Visit logicId (physicId st1),
                 Stderr (ErrIncrement hasData logicId (physicId st1) physicId2 physicNum
                           (length isPurged))],
                Inl Abort)
             else
               (Increment # Visit logicId (physicId st1)
                  # (if \<not> terark_bit_test isDel logicId
                     then [AddRecord logicId (nat physicId2) (rec st1)] else []),
                Inr (st1\<lparr>physicId := Suc (physicId st1)\<rparr>)))
      else ([], Inr st))"

text \<open>
  \<^verbatim>\<open>if (size_t(physicId) != physicNum) fprintf(stderr, "ERROR: ... physicId != physicNum ...")\<close>,
  lines 219--223 and 246--250: the message is printed and the build goes on.
\<close>

definition check_physicNum :: "nat \<Rightarrow> nat \<Rightarrow> nat \<Rightarrow> nat \<Rightarrow> event list" where
  "check_physicNum line pid physicNum logicNum =
     (if pid \<noteq> physicNum then [Stderr (ErrPhysicNum line pid physicNum logicNum)]
      else [])"

subsection \<open>build\_by\_iter (lines 123--256)\<close>

record schema =
  m_dictZipSampleRatio :: real
  m_checksumLevel :: int

text \<open>
  The local variables at line 161. \<^verbatim>\<open>llong recId;\<close> has no initialiser: its first value
  is the parameter \<open>recId0\<close>.
\<close>

definition init_locals :: "nat \<Rightarrow> locals" where
  "init_locals recId0 =
     \<lparr> rec = [], draws = 0, sampled = 0, recId = recId0, physicId = 0, newPhysicId = 0,
       cursor = [] \<rparr>"

text \<open>Lines 252--255, after the second pass.\<close>

definition finish :: "event list" where
  "finish = [CompleteBuild, BuilderReset, Unlock]"

text \<open>The branch of line 167, \<^verbatim>\<open>NULL == isPurged || isPurged->size() == 0\<close>.\<close>

definition build_no_purge ::
  "string \<Rightarrow> store_iterator \<Rightarrow> (nat \<Rightarrow> bool) option \<Rightarrow> nat \<Rightarrow> (nat \<Rightarrow> nat) \<Rightarrow> nat
   \<Rightarrow> event list \<times> outcome" where
  "build_no_purge fpath it isDel ub rnd recId0 =
     (case sampling_pass isDel ub rnd (increments it) (init_locals recId0) of
        (ev1, st) \<Rightarrow>
          (ev1 @ emptyCheckProtect (sampled st) (rec st)
             @ [Lock, Prepare (recId st + 1) fpath, IterReset]
             @ recording_pass isDel (increments it)
             @ finish,
           Completed))"

text \<open>
  The \<^verbatim>\<open>else\<close> branch, lines 189--250. \<^verbatim>\<open>assert(NULL != isDel)\<close> comes first: with a
  \<^verbatim>\<open>NULL\<close> deletion bitmap the run ends there (where \<^verbatim>\<open>assert\<close> is compiled out, the
  loop would read through the null pointer).
\<close>

definition build_purge ::
  "string \<Rightarrow> store_iterator \<Rightarrow> source_store \<Rightarrow> (nat \<Rightarrow> bool) option \<Rightarrow> bool list \<Rightarrow> nat
   \<Rightarrow> (nat \<Rightarrow> nat) \<Rightarrow> nat \<Rightarrow> event list \<times> outcome" where
  "build_purge fpath it store isDel isPurged ub rnd recId0 =
     (case isDel of
        None \<Rightarrow> ([], Failed AssertionFailed)
      | Some del \<Rightarrow>
         (let logicNum = length isPurged;
              physicNum = numDataRows store
          in case for_loop (sampling_body it del isPurged ub rnd physicNum) logicNum 0
                    (init_locals recId0) of
               (ev1, Inl f) \<Rightarrow> (ev1, Failed f)
             | (ev1, Inr st) \<Rightarrow>
                (let pre = ev1 @ check_physicNum 222 (physicId st) physicNum logicNum
                             @ emptyCheckProtect (sampled st) (rec st)
                             @ [Lock, Prepare (newPhysicId st) fpath, IterReset]
                 in case for_loop (recording_body del isPurged physicNum) logicNum 0
                           (st\<lparr>cursor := increments it, physicId := 0\<rparr>) of
                      (ev2, Inl f) \<Rightarrow> (pre @ ev2, Failed f)
                    | (ev2, Inr st2) \<Rightarrow>
                        (pre @ ev2 @ check_physicNum 249 (physicId st2) physicNum logicNum
                           @ finish,
                         Completed))))"

definition build_by_iter ::
  "schema \<Rightarrow> string \<Rightarrow> store_iterator \<Rightarrow> (nat \<Rightarrow> bool) option \<Rightarrow> bool list option
   \<Rightarrow> (nat \<Rightarrow> nat) \<Rightarrow> nat \<Rightarrow> event list \<times> outcome" where
  "build_by_iter sch fpath it isDel isPurged rnd recId0 =
     (if \<not> m_dictZipSampleRatio sch \<ge> 0 then ([], Failed InvalidArgument)
      else case getStore it of
        None \<Rightarrow> ([], Failed InvalidArgument)
      | Some store \<Rightarrow>
         (let ub = sampleUpperBound
                     (sampleRatio (m_dictZipSampleRatio sch) (dataInflateSize store))
          in if isPurged = None \<or> length (the isPurged) = 0
             then build_no_purge fpath it isDel ub rnd recId0
             else build_purge fpath it store isDel (the isPurged) ub rnd recId0))"

subsection \<open>Reading a run\<close>

text \<open>The (logical id, physical id) pairs of the events of each kind, in order.\<close>

fun visits :: "event list \<Rightarrow> (nat \<times> nat) list" where
  "visits [] = []"
| "visits (Visit l p # es) = (l, p) # visits es"
| "visits (e # es) = visits es"

fun candidates :: "event list \<Rightarrow> (nat \<times> nat) list" where
  "candidates [] = []"
| "candidates (Candidate l p # es) = (l, p) # candidates es"
| "candidates (e # es) = candidates es"

fun added :: "event list \<Rightarrow> (nat \<times> nat) list" where
  "added [] = []"
| "added (AddRecord l p r # es) = (l, p) # added es"
| "added (e # es) = added es"

text \<open>The records given to \<^verbatim>\<open>addRecord\<close>, each with the physical id it was yielded under.\<close>

fun added_records :: "event list \<Rightarrow> (nat \<times> bytes) list" where
  "added_records [] = []"
| "added_records (AddRecord l p r # es) = (p, r) # added_records es"
| "added_records (e # es) = added_records es"

fun samples :: "event list \<Rightarrow> bytes list" where
  "samples [] = []"
| "samples (AddSample r # es) = r # samples es"
| "samples (e # es) = samples es"

text \<open>Pass 1 is what happens before \<^verbatim>\<open>iter.reset()\<close>, pass 2 what happens after it.\<close>

definition pass1 :: "event list \<Rightarrow> event list" where
  "pass1 tr = takeWhile (\<lambda>e. e \<noteq> IterReset) tr"

definition pass2 :: "event list \<Rightarrow> event list" where
  "pass2 tr = drop 1 (dropWhile (\<lambda>e. e \<noteq> IterReset) tr)"

text \<open>
  The physical id of a logical id under a purge bitmap: the number of non-purged logical
  ids below it.
\<close>

definition physical_of :: "bool list \<Rightarrow> nat \<Rightarrow> nat" where
  "physical_of isPurged l = length (filter Not (take l isPurged))"

subsection \<open>Kinds of events\<close>

text \<open>
  What pass 1 may do (observe, call the iterator, sample a non-empty record, print) and
  what pass 2 may do (observe, advance the iterator, add a record, print).
\<close>

fun sampling_event :: "event \<Rightarrow> bool" where
  "sampling_event (Visit l p) = True"
| "sampling_event (Candidate l p) = True"
| "sampling_event Increment = True"
| "sampling_event (SeekExact p) = True"
| "sampling_event (AddSample r) = (r \<noteq> [])"
| "sampling_event (Stderr d) = True"
| "sampling_event e = False"

fun recording_event :: "event \<Rightarrow> bool" where
  "recording_event (Visit l p) = True"
| "recording_event Increment = True"
| "recording_event (AddRecord l p r) = True"
| "recording_event (Stderr d) = True"
| "recording_event e = False"

subsection \<open>The liveness predicate and the Memory Guard, as the specification words them\<close>

text \<open>
  The live logical ids, in order: with a purge bitmap the ids that are neither purged nor
  deleted; without one (\<^verbatim>\<open>NULL\<close> or of size 0) the ids the iterator yields that are
  not deleted.
\<close>

definition live_ids ::
  "store_iterator \<Rightarrow> (nat \<Rightarrow> bool) option \<Rightarrow> bool list option \<Rightarrow> nat list" where
  "live_ids it isDel isPurged =
     (case isPurged of
        None \<Rightarrow> filter (not_deleted isDel) (map fst (increments it))
      | Some P \<Rightarrow>
          if P = [] then filter (not_deleted isDel) (map fst (increments it))
          else filter (\<lambda>l. \<not> P ! l \<and> not_deleted isDel l) [0 ..< length P])"



subsection \<open>Exceptions\<close>





subsection \<open>When pass 1 runs to its end\<close>


subsection \<open>Concrete runs\<close>

text \<open>
  Inputs of the scenarios of the specification: a default schema (sample ratio 0, hence
  0.05), a generator whose draws always pass the sampling test and one whose draws never
  do.
\<close>

definition default_schema :: schema where
  "default_schema = \<lparr> m_dictZipSampleRatio = 0, m_checksumLevel = 0 \<rparr>"

definition always_sample :: "nat \<Rightarrow> nat" where
  "always_sample n = 0"

definition never_sample :: "nat \<Rightarrow> nat" where
  "never_sample n = 2 ^ 64 - 1"

definition scenario_B :: "event list \<times> outcome" where
  "scenario_B = build_by_iter default_schema ''out''
     (store_of [''r0'', ''r1'', ''r2'', ''r3'', ''r4'', ''r5'', ''r6'', ''r7'', ''r8'', ''r9''])
     (Some (\<lambda>i. i = 2 \<or> i = 5)) None always_sample 0"

definition scenario_C :: "event list \<times> outcome" where
  "scenario_C = build_by_iter default_schema ''out''
     (store_of [''r0'', ''r2'', ''r3'', ''r5'', ''r6'', ''r8'', ''r9''])
     (Some (\<lambda>i. i = 3))
     (Some [False, True, False, False, True, False, False, True, False, False])
     always_sample 0"

text \<open>A purge bitmap that expects two physical records over a store that holds one.\<close>

definition scenario_D :: "event list \<times> outcome" where
  "scenario_D = build_by_iter default_schema ''out'' (store_of [''r0''])
     (Some (\<lambda>i. False)) (Some [False, False]) always_sample 0"

text \<open>A purge bitmap that expects two physical records over a store that holds three.\<close>

definition scenario_E :: "event list \<times> outcome" where
  "scenario_E = build_by_iter default_schema ''out'' (store_of [''r0'', ''r1'', ''r2''])
     (Some (\<lambda>i. False)) (Some [False, True, False]) always_sample 0"

text \<open>
  A source that declares three records and whose iterator yields two, built without a
  purge bitmap.
\<close>

definition scenario_G :: "event list \<times> outcome" where
  "scenario_G = build_by_iter default_schema ''out''
     \<lparr> getStore = Some \<lparr> dataInflateSize = 6, numDataRows = 3 \<rparr>,
       increments = [(0, ''r0''), (1, ''r1'')],
       seekExact = map_of [(0, ''r0''), (1, ''r1'')] \<rparr>
     None None always_sample 0"





text \<open>The messages on \<^verbatim>\<open>stderr\<close>.\<close>

fun is_stderr :: "event \<Rightarrow> bool" where
  "is_stderr (Stderr d) = True"
| "is_stderr e = False"



section \<open>Properties\<close>

subsection \<open>The passes\<close>

lemma visits_append [simp]: "visits (xs @ ys) = visits xs @ visits ys"
  by (induction xs rule: visits.induct) auto
lemma candidates_append [simp]: "candidates (xs @ ys) = candidates xs @ candidates ys"
  by (induction xs rule: candidates.induct) auto
lemma added_append [simp]: "added (xs @ ys) = added xs @ added ys"
  by (induction xs rule: added.induct) auto
lemma samples_append [simp]: "samples (xs @ ys) = samples xs @ samples ys"
  by (induction xs rule: samples.induct) auto

lemma sample_record_state:
  assumes "sample_record ub rnd st = (ev, st')"
  shows "rec st' = rec st" "recId st' = recId st" "physicId st' = physicId st"
    "newPhysicId st' = newPhysicId st" "cursor st' = cursor st"
    "sampled st' = sampled st + length (samples ev)"
  using assms by (auto simp: sample_record_def split: if_splits)

lemma sample_record_events:
  assumes "sample_record ub rnd st = (ev, st')"
  shows "visits ev = []" "candidates ev = []" "added ev = []"
    "\<forall>e\<in>set ev. sampling_event e"
  using assms by (auto simp: sample_record_def split: if_splits)

lemma sampling_step_events:
  assumes "sampling_step isDel ub rnd i r st = (ev, st')"
  shows "visits ev = [(i, i)]"
    "candidates ev = (if not_deleted isDel i then [(i, i)] else [])"
    "\<forall>e\<in>set ev. sampling_event e"
proof -
  obtain ev0 st0 where sr: "sample_record ub rnd (st\<lparr>recId := i, rec := r\<rparr>) = (ev0, st0)"
    by (cases "sample_record ub rnd (st\<lparr>recId := i, rec := r\<rparr>)")
  have ev: "ev = (if not_deleted isDel i then Visit i i # Candidate i i # ev0 else [Visit i i])"
    using assms sr by (auto simp: sampling_step_def Let_def)
  show "visits ev = [(i, i)]" using sample_record_events(1)[OF sr] by (simp add: ev)
  show "candidates ev = (if not_deleted isDel i then [(i, i)] else [])"
    using sample_record_events(2)[OF sr] by (simp add: ev)
  show "\<forall>e\<in>set ev. sampling_event e" using sample_record_events(4)[OF sr] by (simp add: ev)
qed

lemma sampling_step_state:
  assumes "sampling_step isDel ub rnd i r st = (ev, st')"
  shows "recId st' = i" "rec st' = r" "sampled st' = sampled st + length (samples ev)"
proof -
  obtain ev0 st0 where sr: "sample_record ub rnd (st\<lparr>recId := i, rec := r\<rparr>) = (ev0, st0)"
    by (cases "sample_record ub rnd (st\<lparr>recId := i, rec := r\<rparr>)")
  have ev: "ev = (if not_deleted isDel i then Visit i i # Candidate i i # ev0 else [Visit i i])"
    and st: "st' = (if not_deleted isDel i then st0 else st\<lparr>recId := i, rec := r\<rparr>)"
    using assms sr by (auto simp: sampling_step_def Let_def)
  show "recId st' = i" using sample_record_state(2)[OF sr] by (simp add: st)
  show "rec st' = r" using sample_record_state(1)[OF sr] by (simp add: st)
  show "sampled st' = sampled st + length (samples ev)"
    using sample_record_state(6)[OF sr] by (simp add: st ev)
qed

lemma sampling_pass_Cons:
  assumes "sampling_pass isDel ub rnd ((i, r) # xs) st = (ev, st')"
  obtains ev0 st0 evs where "sampling_step isDel ub rnd i r st = (ev0, st0)"
    and "sampling_pass isDel ub rnd xs st0 = (evs, st')" and "ev = Increment # ev0 @ evs"
  using assms by (auto split: prod.splits)

lemma sampling_pass_visits:
  "sampling_pass isDel ub rnd xs st = (ev, st') \<Longrightarrow> visits ev = map (\<lambda>x. (fst x, fst x)) xs"
proof (induction xs arbitrary: st ev st')
  case Nil
  then show ?case by auto
next
  case (Cons x xs)
  obtain i r where x: "x = (i, r)" by (cases x)
  from Cons.prems obtain ev0 st0 evs where
    s: "sampling_step isDel ub rnd i r st = (ev0, st0)"
    and p: "sampling_pass isDel ub rnd xs st0 = (evs, st')" and ev: "ev = Increment # ev0 @ evs"
    unfolding x by (rule sampling_pass_Cons)
  show ?case using Cons.IH[OF p] sampling_step_events(1)[OF s] by (simp add: ev x)
qed

lemma sampling_pass_candidates:
  "sampling_pass isDel ub rnd xs st = (ev, st')
   \<Longrightarrow> candidates ev = map (\<lambda>x. (fst x, fst x)) (filter (\<lambda>x. not_deleted isDel (fst x)) xs)"
proof (induction xs arbitrary: st ev st')
  case Nil
  then show ?case by auto
next
  case (Cons x xs)
  obtain i r where x: "x = (i, r)" by (cases x)
  from Cons.prems obtain ev0 st0 evs where
    s: "sampling_step isDel ub rnd i r st = (ev0, st0)"
    and p: "sampling_pass isDel ub rnd xs st0 = (evs, st')" and ev: "ev = Increment # ev0 @ evs"
    unfolding x by (rule sampling_pass_Cons)
  show ?case using Cons.IH[OF p] sampling_step_events(2)[OF s] by (simp add: ev x)
qed

lemma sampling_pass_events:
  "sampling_pass isDel ub rnd xs st = (ev, st') \<Longrightarrow> \<forall>e\<in>set ev. sampling_event e"
proof (induction xs arbitrary: st ev st')
  case Nil
  then show ?case by auto
next
  case (Cons x xs)
  obtain i r where x: "x = (i, r)" by (cases x)
  from Cons.prems obtain ev0 st0 evs where
    s: "sampling_step isDel ub rnd i r st = (ev0, st0)"
    and p: "sampling_pass isDel ub rnd xs st0 = (evs, st')" and ev: "ev = Increment # ev0 @ evs"
    unfolding x by (rule sampling_pass_Cons)
  show ?case using Cons.IH[OF p] sampling_step_events(3)[OF s] by (auto simp: ev)
qed


lemma sampling_pass_last:
  "sampling_pass isDel ub rnd xs st = (ev, st')
   \<Longrightarrow> recId st' = (if xs = [] then recId st else fst (last xs))
     \<and> rec st' = (if xs = [] then rec st else snd (last xs))"
proof (induction xs arbitrary: st ev st')
  case Nil
  then show ?case by auto
next
  case (Cons x xs)
  obtain i r where x: "x = (i, r)" by (cases x)
  from Cons.prems obtain ev0 st0 evs where
    s: "sampling_step isDel ub rnd i r st = (ev0, st0)"
    and p: "sampling_pass isDel ub rnd xs st0 = (evs, st')" and ev: "ev = Increment # ev0 @ evs"
    unfolding x by (rule sampling_pass_Cons)
  show ?case using Cons.IH[OF p] sampling_step_state(1,2)[OF s] by (simp add: x)
qed

lemma recording_pass_visits: "visits (recording_pass isDel xs) = map (\<lambda>x. (fst x, fst x)) xs"
  by (induction xs) auto

lemma recording_pass_added:
  "added (recording_pass isDel xs) = map (\<lambda>x. (fst x, fst x)) (filter (\<lambda>x. not_deleted isDel (fst x)) xs)"
  by (induction xs) auto

lemma recording_pass_events: "\<forall>e\<in>set (recording_pass isDel xs). recording_event e"
  by (induction xs) auto

lemma physical_of_0 [simp]: "physical_of P 0 = 0"
  by (simp add: physical_of_def)

lemma physical_of_Suc:
  "l < length P \<Longrightarrow> physical_of P (Suc l) = physical_of P l + (if P ! l then 0 else 1)"
  by (simp add: physical_of_def take_Suc_conv_app_nth)

lemma physical_of_length: "physical_of P (length P) = length (filter Not P)"
  by (simp add: physical_of_def)

lemma for_loop_done: "\<not> l < n \<Longrightarrow> for_loop body n l st = ([], Inr st)"
  by (simp add: for_loop.simps)

lemma for_loop_Inr:
  assumes "for_loop body n l st = (ev, Inr st')" and "l < n"
  obtains ev0 st0 evs where "body l st = (ev0, Inr st0)"
    and "for_loop body n (Suc l) st0 = (evs, Inr st')" and "ev = ev0 @ evs"
proof -
  from assms have "(case body l st of
           (ev, Inl f) \<Rightarrow> (ev, Inl f)
         | (ev, Inr st1) \<Rightarrow>
             (case for_loop body n (Suc l) st1 of
                (evs, res) \<Rightarrow> (ev @ evs, res))) = (ev, Inr st')"
    by (subst (asm) for_loop.simps) simp
  then show ?thesis using that by (auto split: prod.splits sum.splits)
qed

lemma for_loop_Inl:
  assumes "for_loop body n l st = (ev, Inl f)"
  obtains (now) "l < n" and "body l st = (ev, Inl f)"
  | (later) ev0 st0 evs where "l < n" and "body l st = (ev0, Inr st0)"
      and "for_loop body n (Suc l) st0 = (evs, Inl f)" and "ev = ev0 @ evs"
proof -
  have l: "l < n" using assms by (cases "l < n") (simp_all add: for_loop_done)
  with assms have "(case body l st of
           (ev, Inl f) \<Rightarrow> (ev, Inl f)
         | (ev, Inr st1) \<Rightarrow>
             (case for_loop body n (Suc l) st1 of
                (evs, res) \<Rightarrow> (ev @ evs, res))) = (ev, Inl f)"
    by (subst (asm) for_loop.simps) simp
  then show ?thesis using that l by (auto split: prod.splits sum.splits)
qed

lemma sample_record_sampling:
  "sample_record ub rnd st = (ev, st') \<Longrightarrow> e \<in> set ev \<Longrightarrow> sampling_event e"
  by (auto simp: sample_record_def split: if_splits)

lemma sampling_body_Inr:
  assumes "sampling_body it del P ub rnd pn l st = (ev, Inr st')"
  shows "physicId st' = physicId st + (if P ! l then 0 else 1)"
    and "visits ev = (if P ! l then [] else [(l, physicId st)])"
    and "candidates ev = (if \<not> P ! l \<and> \<not> del l then [(l, physicId st)] else [])"
    and "newPhysicId st' = newPhysicId st + length (candidates ev)"
    and "sampled st' = sampled st + length (samples ev)"
    and "\<forall>e\<in>set ev. sampling_event e"
    and "\<not> P ! l \<and> \<not> del l \<Longrightarrow> seekExact it (physicId st) = Some (rec st')"
    and "P ! l \<or> del l \<Longrightarrow> rec st' = rec st"
proof -
  show "physicId st' = physicId st + (if P ! l then 0 else 1)"
    using assms
    by (auto simp: sampling_body_def terark_bit_test_def
        split: if_splits option.splits prod.splits dest: sample_record_state(3))
  show "visits ev = (if P ! l then [] else [(l, physicId st)])"
    using assms
    by (auto simp: sampling_body_def terark_bit_test_def
        split: if_splits option.splits prod.splits dest: sample_record_events(1))
  show c: "candidates ev = (if \<not> P ! l \<and> \<not> del l then [(l, physicId st)] else [])"
    using assms
    by (auto simp: sampling_body_def terark_bit_test_def
        split: if_splits option.splits prod.splits dest: sample_record_events(2))
  show "newPhysicId st' = newPhysicId st + length (candidates ev)"
    unfolding c using assms
    by (auto simp: sampling_body_def terark_bit_test_def
        split: if_splits option.splits prod.splits dest: sample_record_state(4))
  show "sampled st' = sampled st + length (samples ev)"
    using assms
    by (auto simp: sampling_body_def terark_bit_test_def
        split: if_splits option.splits prod.splits dest: sample_record_state(6))
  show "\<forall>e\<in>set ev. sampling_event e"
    using assms
    by (auto simp: sampling_body_def terark_bit_test_def
        split: if_splits option.splits prod.splits dest: sample_record_sampling)
  show "\<not> P ! l \<and> \<not> del l \<Longrightarrow> seekExact it (physicId st) = Some (rec st')"
    using assms
    by (auto simp: sampling_body_def terark_bit_test_def
        split: if_splits option.splits prod.splits dest: sample_record_state(1))
  show "P ! l \<or> del l \<Longrightarrow> rec st' = rec st"
    using assms
    by (auto simp: sampling_body_def terark_bit_test_def
        split: if_splits option.splits prod.splits)
qed

lemma sampling_body_Inl:
  assumes "sampling_body it del P ub rnd pn l st = (ev, Inl f)"
  shows "f = Abort" and "\<not> P ! l" and "\<not> del l" and "seekExact it (physicId st) = None"
    and "ev = [SeekExact (physicId st), Visit l (physicId st),
               Stderr (ErrSeekExact l (physicId st) (length P) pn)]"
  using assms
  by (auto simp: sampling_body_def terark_bit_test_def
      split: if_splits option.splits prod.splits)

lemma sampling_loop_Inr:
  assumes "for_loop (sampling_body it del P ub rnd pn) (length P) l st = (ev, Inr st')"
    and "physicId st = physical_of P l" and "l \<le> length P"
  shows "physicId st' = physical_of P (length P)
    \<and> visits ev = map (\<lambda>i. (i, physical_of P i)) (filter (\<lambda>i. \<not> P ! i) [l ..< length P])
    \<and> candidates ev = map (\<lambda>i. (i, physical_of P i))
                         (filter (\<lambda>i. \<not> P ! i \<and> \<not> del i) [l ..< length P])
    \<and> newPhysicId st' = newPhysicId st + length (candidates ev)
    \<and> sampled st' = sampled st + length (samples ev)
    \<and> (\<forall>e\<in>set ev. sampling_event e)"
  using assms
proof (induction "length P - l" arbitrary: l st ev)
  case 0
  then have "l = length P" by simp
  with "0.prems" show ?case by (simp add: for_loop_done)
next
  case (Suc k)
  then have l: "l < length P" by simp
  from Suc.prems(1) l obtain ev0 st0 evs where
    b: "sampling_body it del P ub rnd pn l st = (ev0, Inr st0)"
    and r: "for_loop (sampling_body it del P ub rnd pn) (length P) (Suc l) st0 = (evs, Inr st')"
    and ev: "ev = ev0 @ evs"
    by (rule for_loop_Inr)
  have p0: "physicId st0 = physical_of P (Suc l)"
    using sampling_body_Inr(1)[OF b] Suc.prems(2) l by (simp add: physical_of_Suc)
  have k: "k = length P - Suc l" using Suc.hyps(2) by simp
  have IH: "physicId st' = physical_of P (length P)
    \<and> visits evs = map (\<lambda>i. (i, physical_of P i)) (filter (\<lambda>i. \<not> P ! i) [Suc l ..< length P])
    \<and> candidates evs = map (\<lambda>i. (i, physical_of P i))
                         (filter (\<lambda>i. \<not> P ! i \<and> \<not> del i) [Suc l ..< length P])
    \<and> newPhysicId st' = newPhysicId st0 + length (candidates evs)
    \<and> sampled st' = sampled st0 + length (samples evs)
    \<and> (\<forall>e\<in>set evs. sampling_event e)"
    using Suc.hyps(1)[OF k r p0] l by simp
  have u: "[l ..< length P] = l # [Suc l ..< length P]" using l by (simp add: upt_conv_Cons)
  show ?case
    using IH sampling_body_Inr(2,3,4,5,6)[OF b] Suc.prems(2)
    by (auto simp: ev u)
qed

lemma for_loop_events:
  assumes "\<And>i s ev res. body i s = (ev, res) \<Longrightarrow> \<forall>e\<in>set ev. Q e"
    and "for_loop body n l st = (ev, res)"
  shows "\<forall>e\<in>set ev. Q e"
  using assms(2)
proof (induction "n - l" arbitrary: l st ev res)
  case 0
  then show ?case by (simp add: for_loop_done)
next
  case (Suc k)
  then have l: "l < n" by simp
  have k: "k = n - Suc l" using Suc.hyps(2) by simp
  obtain ev0 r0 where b: "body l st = (ev0, r0)" by (cases "body l st")
  show ?case
  proof (cases r0)
    case (Inl f)
    then have "ev = ev0" using Suc.prems l b by (subst (asm) for_loop.simps) simp
    then show ?thesis using assms(1)[OF b] by simp
  next
    case (Inr st0)
    obtain evs r1 where r: "for_loop body n (Suc l) st0 = (evs, r1)"
      by (cases "for_loop body n (Suc l) st0")
    have "ev = ev0 @ evs" using Suc.prems l b Inr r by (subst (asm) for_loop.simps) simp
    then show ?thesis using assms(1)[OF b] Suc.hyps(1)[OF k r] by auto
  qed
qed

lemma for_loop_failure:
  assumes "\<And>i s ev f. body i s = (ev, Inl f) \<Longrightarrow> f = Abort"
    and "for_loop body n l st = (ev, Inl f)"
  shows "f = Abort"
  using assms(2)
proof (induction "n - l" arbitrary: l st ev)
  case 0
  then show ?case by (simp add: for_loop_done)
next
  case (Suc k)
  have k: "k = n - Suc l" using Suc.hyps(2) by simp
  from Suc.prems show ?case
  proof (cases rule: for_loop_Inl)
    case now
    then show ?thesis using assms(1) by blast
  next
    case (later ev0 st0 evs)
    then show ?thesis using Suc.hyps(1)[OF k] by blast
  qed
qed

lemma sampling_body_events:
  "sampling_body it del P ub rnd pn l st = (ev, res) \<Longrightarrow> \<forall>e\<in>set ev. sampling_event e"
proof (cases res)
  case (Inl f)
  assume "sampling_body it del P ub rnd pn l st = (ev, res)"
  then show ?thesis using sampling_body_Inl(5)[of it del P ub rnd pn l st ev f] Inl by simp
next
  case (Inr st')
  assume "sampling_body it del P ub rnd pn l st = (ev, res)"
  then show ?thesis using sampling_body_Inr(6)[of it del P ub rnd pn l st ev st'] Inr by simp
qed

lemma sampling_loop_events:
  "for_loop (sampling_body it del P ub rnd pn) n l st = (ev, res)
   \<Longrightarrow> \<forall>e\<in>set ev. sampling_event e"
  by (rule for_loop_events[where body = "sampling_body it del P ub rnd pn"])
     (rule sampling_body_events)

lemma sampling_loop_failure:
  "for_loop (sampling_body it del P ub rnd pn) n l st = (ev, Inl f) \<Longrightarrow> f = Abort"
  by (rule for_loop_failure[where body = "sampling_body it del P ub rnd pn"])
     (rule sampling_body_Inl(1))

lemma sampling_loop_Inr_found:
  assumes "for_loop (sampling_body it del P ub rnd pn) (length P) l st = (ev, Inr st')"
    and "physicId st = physical_of P l"
    and "l \<le> i" and "i < length P" and "\<not> P ! i" and "\<not> del i"
  shows "seekExact it (physical_of P i) \<noteq> None"
  using assms
proof (induction "length P - l" arbitrary: l st ev)
  case 0
  then show ?case by simp
next
  case (Suc k)
  then have l: "l < length P" by simp
  from Suc.prems(1) l obtain ev0 st0 evs where
    b: "sampling_body it del P ub rnd pn l st = (ev0, Inr st0)"
    and r: "for_loop (sampling_body it del P ub rnd pn) (length P) (Suc l) st0 = (evs, Inr st')"
    and ev: "ev = ev0 @ evs"
    by (rule for_loop_Inr)
  have p0: "physicId st0 = physical_of P (Suc l)"
    using sampling_body_Inr(1)[OF b] Suc.prems(2) l by (simp add: physical_of_Suc)
  have k: "k = length P - Suc l" using Suc.hyps(2) by simp
  show ?case
  proof (cases "i = l")
    case True
    then show ?thesis using sampling_body_Inr(7)[OF b] Suc.prems by simp
  next
    case False
    then have "Suc l \<le> i" using Suc.prems(3) by simp
    then show ?thesis using Suc.hyps(1)[OF k r p0] Suc.prems by simp
  qed
qed

lemma sampling_loop_Inl:
  assumes "for_loop (sampling_body it del P ub rnd pn) (length P) l st = (ev, Inl f)"
    and "physicId st = physical_of P l"
  shows "\<exists>m evs. l \<le> m \<and> m < length P \<and> \<not> P ! m \<and> \<not> del m
           \<and> seekExact it (physical_of P m) = None
           \<and> (\<forall>i. l \<le> i \<and> i < m \<and> \<not> P ! i \<and> \<not> del i
                  \<longrightarrow> seekExact it (physical_of P i) \<noteq> None)
           \<and> ev = evs @ [Visit m (physical_of P m),
                          Stderr (ErrSeekExact m (physical_of P m) (length P) pn)]"
  using assms
proof (induction "length P - l" arbitrary: l st ev)
  case 0
  then show ?case by (simp add: for_loop_done)
next
  case (Suc k)
  have k: "k = length P - Suc l" using Suc.hyps(2) by simp
  from Suc.prems(1) show ?case
  proof (cases rule: for_loop_Inl)
    case now
    have "l \<le> l \<and> l < length P \<and> \<not> P ! l \<and> \<not> del l
           \<and> seekExact it (physical_of P l) = None
           \<and> (\<forall>i. l \<le> i \<and> i < l \<and> \<not> P ! i \<and> \<not> del i
                  \<longrightarrow> seekExact it (physical_of P i) \<noteq> None)
           \<and> ev = [SeekExact (physical_of P l)] @ [Visit l (physical_of P l),
                          Stderr (ErrSeekExact l (physical_of P l) (length P) pn)]"
      using sampling_body_Inl[OF now(2)] now(1) Suc.prems(2) by auto
    then show ?thesis by blast
  next
    case (later ev0 st0 evs)
    have p0: "physicId st0 = physical_of P (Suc l)"
      using sampling_body_Inr(1)[OF later(2)] Suc.prems(2) later(1) by (simp add: physical_of_Suc)
    from Suc.hyps(1)[OF k later(3) p0] obtain m evs' where
      m: "Suc l \<le> m" "m < length P" "\<not> P ! m" "\<not> del m"
         "seekExact it (physical_of P m) = None"
         "\<forall>i. Suc l \<le> i \<and> i < m \<and> \<not> P ! i \<and> \<not> del i
                  \<longrightarrow> seekExact it (physical_of P i) \<noteq> None"
         "evs = evs' @ [Visit m (physical_of P m),
                          Stderr (ErrSeekExact m (physical_of P m) (length P) pn)]"
      by blast
    have first: "\<forall>i. l \<le> i \<and> i < m \<and> \<not> P ! i \<and> \<not> del i
                  \<longrightarrow> seekExact it (physical_of P i) \<noteq> None"
    proof (intro allI impI)
      fix i assume i: "l \<le> i \<and> i < m \<and> \<not> P ! i \<and> \<not> del i"
      show "seekExact it (physical_of P i) \<noteq> None"
      proof (cases "i = l")
        case True
        then show ?thesis using sampling_body_Inr(7)[OF later(2)] i Suc.prems(2) by simp
      next
        case False
        then have "Suc l \<le> i" using i by simp
        then show ?thesis using m(6) i by blast
      qed
    qed
    have "ev = (ev0 @ evs') @ [Visit m (physical_of P m),
                          Stderr (ErrSeekExact m (physical_of P m) (length P) pn)]"
      using later(4) m(7) by simp
    moreover have "l \<le> m" using m(1) by simp
    ultimately show ?thesis using m(2,3,4,5) first by blast
  qed
qed


lemma recording_body_Inr:
  assumes "recording_body del P pn l st = (ev, Inr st')"
  shows "physicId st' = physicId st + (if P ! l then 0 else 1)"
    and "visits ev = (if P ! l then [] else [(l, physicId st)])"
    and "added ev = (if \<not> P ! l \<and> \<not> del l then [(l, physicId st)] else [])"
    and "\<forall>e\<in>set ev. recording_event e"
    and "\<not> P ! l \<Longrightarrow> \<exists>r. cursor st = (physicId st, r) # cursor st'"
    and "P ! l \<Longrightarrow> cursor st' = cursor st"
  using assms
  by (auto simp: recording_body_def increment_def terark_bit_test_def
      split: if_splits list.splits prod.splits)

lemma recording_body_Inl:
  assumes "recording_body del P pn l st = (ev, Inl f)"
  shows "f = Abort" and "\<not> P ! l" and "\<forall>e\<in>set ev. recording_event e"
    and "added ev = []"
    and "cursor st = [] \<or> fst (hd (cursor st)) \<noteq> physicId st"
  using assms
  by (auto simp: recording_body_def increment_def terark_bit_test_def
      split: if_splits list.splits prod.splits)

lemma recording_body_events:
  "recording_body del P pn l st = (ev, res) \<Longrightarrow> \<forall>e\<in>set ev. recording_event e"
proof (cases res)
  case (Inl f)
  assume "recording_body del P pn l st = (ev, res)"
  then show ?thesis using recording_body_Inl(3)[of del P pn l st ev f] Inl by simp
next
  case (Inr st')
  assume "recording_body del P pn l st = (ev, res)"
  then show ?thesis using recording_body_Inr(4)[of del P pn l st ev st'] Inr by simp
qed

lemma recording_loop_events:
  "for_loop (recording_body del P pn) n l st = (ev, res) \<Longrightarrow> \<forall>e\<in>set ev. recording_event e"
  by (rule for_loop_events[where body = "recording_body del P pn"])
     (rule recording_body_events)

lemma recording_loop_failure:
  "for_loop (recording_body del P pn) n l st = (ev, Inl f) \<Longrightarrow> f = Abort"
  by (rule for_loop_failure[where body = "recording_body del P pn"])
     (rule recording_body_Inl(1))

lemma recording_loop_Inr:
  assumes "for_loop (recording_body del P pn) (length P) l st = (ev, Inr st')"
    and "physicId st = physical_of P l" and "l \<le> length P"
  shows "physicId st' = physical_of P (length P)
    \<and> visits ev = map (\<lambda>i. (i, physical_of P i)) (filter (\<lambda>i. \<not> P ! i) [l ..< length P])
    \<and> added ev = map (\<lambda>i. (i, physical_of P i))
                         (filter (\<lambda>i. \<not> P ! i \<and> \<not> del i) [l ..< length P])"
  using assms
proof (induction "length P - l" arbitrary: l st ev)
  case 0
  then have "l = length P" by simp
  with "0.prems" show ?case by (simp add: for_loop_done)
next
  case (Suc k)
  then have l: "l < length P" by simp
  from Suc.prems(1) l obtain ev0 st0 evs where
    b: "recording_body del P pn l st = (ev0, Inr st0)"
    and r: "for_loop (recording_body del P pn) (length P) (Suc l) st0 = (evs, Inr st')"
    and ev: "ev = ev0 @ evs"
    by (rule for_loop_Inr)
  have p0: "physicId st0 = physical_of P (Suc l)"
    using recording_body_Inr(1)[OF b] Suc.prems(2) l by (simp add: physical_of_Suc)
  have k: "k = length P - Suc l" using Suc.hyps(2) by simp
  have IH: "physicId st' = physical_of P (length P)
    \<and> visits evs = map (\<lambda>i. (i, physical_of P i)) (filter (\<lambda>i. \<not> P ! i) [Suc l ..< length P])
    \<and> added evs = map (\<lambda>i. (i, physical_of P i))
                         (filter (\<lambda>i. \<not> P ! i \<and> \<not> del i) [Suc l ..< length P])"
    using Suc.hyps(1)[OF k r p0] l by simp
  have u: "[l ..< length P] = l # [Suc l ..< length P]" using l by (simp add: upt_conv_Cons)
  show ?case
    using IH recording_body_Inr(2,3)[OF b] Suc.prems(2)
    by (auto simp: ev u)
qed

text \<open>The walk numbers the non-purged logical ids 0, 1, 2, ...\<close>

lemma added_records_append [simp]:
  "added_records (xs @ ys) = added_records xs @ added_records ys"
  by (induction xs rule: added_records.induct) auto

lemma sample_record_no_records:
  "sample_record ub rnd st = (ev, st') \<Longrightarrow> added_records ev = []"
  by (auto simp: sample_record_def split: if_splits)

lemma recording_pass_added_records:
  "added_records (recording_pass isDel xs) = filter (\<lambda>x. not_deleted isDel (fst x)) xs"
  by (induction xs) auto

lemma for_loop_cases:
  assumes "for_loop body n l st = (ev, res)"
  obtains (finished) "\<not> l < n" and "ev = []" and "res = Inr st"
  | (stop) f where "l < n" and "body l st = (ev, Inl f)" and "res = Inl f"
  | (step) ev0 st0 evs where "l < n" and "body l st = (ev0, Inr st0)"
      and "for_loop body n (Suc l) st0 = (evs, res)" and "ev = ev0 @ evs"
proof (cases "l < n")
  case False
  then show ?thesis using assms finished by (simp add: for_loop_done)
next
  case True
  with assms have "(case body l st of
           (ev, Inl f) \<Rightarrow> (ev, Inl f)
         | (ev, Inr st1) \<Rightarrow>
             (case for_loop body n (Suc l) st1 of
                (evs, res) \<Rightarrow> (ev @ evs, res))) = (ev, res)"
    by (subst (asm) for_loop.simps) simp
  then show ?thesis using True stop step by (auto split: prod.splits sum.splits)
qed

lemma recording_body_records:
  assumes "recording_body del P pn l st = (ev, Inr st')"
  shows "P ! l \<Longrightarrow> added_records ev = [] \<and> cursor st' = cursor st"
    and "\<not> P ! l \<Longrightarrow> \<exists>r. cursor st = (physicId st, r) # cursor st'
                         \<and> added_records ev = (if del l then [] else [(physicId st, r)])"
  using assms
  by (auto simp: recording_body_def increment_def terark_bit_test_def
      split: if_splits list.splits prod.splits)

lemma recording_body_no_records:
  "recording_body del P pn l st = (ev, Inl f) \<Longrightarrow> added_records ev = []"
  by (auto simp: recording_body_def increment_def terark_bit_test_def
      split: if_splits list.splits prod.splits)

text \<open>Pass 2 submits, in their order, records that the iterator yields.\<close>

lemma recording_loop_subseq:
  "for_loop (recording_body del P pn) n l st = (ev, res)
   \<Longrightarrow> subseq (added_records ev) (cursor st)"
proof (induction "n - l" arbitrary: l st ev)
  case 0
  then show ?case by (simp add: for_loop_done)
next
  case (Suc k)
  have k: "k = n - Suc l" using Suc.hyps(2) by simp
  from Suc.prems show ?case
  proof (cases rule: for_loop_cases)
    case finished
    then show ?thesis by simp
  next
    case (stop f)
    then show ?thesis using recording_body_no_records by simp
  next
    case (step ev0 st0 evs)
    have IH: "subseq (added_records evs) (cursor st0)"
      by (rule Suc.hyps(1)[OF k step(3)])
    show ?thesis
    proof (cases "P ! l")
      case True
      then show ?thesis using recording_body_records(1)[OF step(2)] IH by (simp add: step(4))
    next
      case False
      from recording_body_records(2)[OF step(2) False] obtain r where
        c: "cursor st = (physicId st, r) # cursor st0"
        and a: "added_records ev0 = (if del l then [] else [(physicId st, r)])"
        by blast
      show ?thesis using IH by (auto simp: step(4) c a intro: list_emb_Cons)
    qed
  qed
qed

text \<open>What pass 2 has added when it stops is the beginning of what it adds in full.\<close>

lemma recording_loop_added_prefix:
  assumes "for_loop (recording_body del P pn) (length P) l st = (ev, res)"
    and "physicId st = physical_of P l" and "l \<le> length P"
  shows "prefix (added ev)
           (map (\<lambda>i. (i, physical_of P i))
              (filter (\<lambda>i. \<not> P ! i \<and> \<not> del i) [l ..< length P]))"
  using assms
proof (induction "length P - l" arbitrary: l st ev)
  case 0
  then show ?case by (simp add: for_loop_done)
next
  case (Suc k)
  have k: "k = length P - Suc l" using Suc.hyps(2) by simp
  from Suc.prems(1) show ?case
  proof (cases rule: for_loop_cases)
    case finished
    then show ?thesis by simp
  next
    case (stop f)
    then show ?thesis using recording_body_Inl(4) by simp
  next
    case (step ev0 st0 evs)
    have p0: "physicId st0 = physical_of P (Suc l)"
      using recording_body_Inr(1)[OF step(2)] Suc.prems(2) step(1)
      by (simp add: physical_of_Suc)
    have IH: "prefix (added evs)
           (map (\<lambda>i. (i, physical_of P i))
              (filter (\<lambda>i. \<not> P ! i \<and> \<not> del i) [Suc l ..< length P]))"
      using Suc.hyps(1)[OF k step(3) p0] step(1) by simp
    have u: "[l ..< length P] = l # [Suc l ..< length P]"
      using step(1) by (simp add: upt_conv_Cons)
    show ?thesis
      using IH recording_body_Inr(3)[OF step(2)] Suc.prems(2) by (auto simp: step(4) u)
  qed
qed

text \<open>Every record pass 1 held was found by \<^verbatim>\<open>seekExact\<close>, however the pass ended.\<close>

lemma sampling_body_candidates_found:
  assumes "sampling_body it del P ub rnd pn l st = (ev, res)"
  shows "\<forall>x\<in>set (candidates ev). seekExact it (snd x) \<noteq> None"
  using assms
  by (auto simp: sampling_body_def terark_bit_test_def
      split: if_splits option.splits prod.splits dest: sample_record_events(2))

lemma candidates_found_append:
  "(\<forall>x\<in>set (candidates (xs @ ys)). Q x)
   = ((\<forall>x\<in>set (candidates xs). Q x) \<and> (\<forall>x\<in>set (candidates ys). Q x))"
  by auto

lemma sampling_loop_candidates_found:
  assumes "for_loop (sampling_body it del P ub rnd pn) n l st = (ev, res)"
  shows "\<forall>x\<in>set (candidates ev). seekExact it (snd x) \<noteq> None"
  using assms
proof (induction "n - l" arbitrary: l st ev)
  case 0
  then show ?case by (simp add: for_loop_done)
next
  case (Suc k)
  have k: "k = n - Suc l" using Suc.hyps(2) by simp
  from Suc.prems show ?case
  proof (cases rule: for_loop_cases)
    case finished
    then show ?thesis by simp
  next
    case (stop f)
    then show ?thesis using sampling_body_candidates_found by blast
  next
    case (step ev0 st0 evs)
    show ?thesis
      using sampling_body_candidates_found[OF step(2)] Suc.hyps(1)[OF k step(3)]
      unfolding step(4) candidates_found_append by simp
  qed
qed

lemma physical_of_append: "i \<le> length P \<Longrightarrow> physical_of (P @ Q) i = physical_of P i"
  by (simp add: physical_of_def)

lemma walk_numbers:
  "map (physical_of P) (filter (\<lambda>i. \<not> P ! i) [0 ..< length P]) = [0 ..< length (filter Not P)]"
proof (induction P rule: rev_induct)
  case Nil
  then show ?case by simp
next
  case (snoc b P)
  have f: "filter (\<lambda>i. \<not> (P @ [b]) ! i) [0 ..< length P] = filter (\<lambda>i. \<not> P ! i) [0 ..< length P]"
    by (rule filter_cong) (auto simp: nth_append)
  have m: "map (physical_of (P @ [b])) (filter (\<lambda>i. \<not> P ! i) [0 ..< length P])
           = map (physical_of P) (filter (\<lambda>i. \<not> P ! i) [0 ..< length P])"
    by (rule map_cong) (auto simp: physical_of_append)
  have n: "physical_of (P @ [c]) (length P) = length (filter Not P)" for c
    by (simp add: physical_of_def)
  show ?case using snoc.IH by (simp add: f m n)
qed

lemma walk_zip:
  "map (\<lambda>i. (i, physical_of P i)) (filter (\<lambda>i. \<not> P ! i) [0 ..< length P])
   = zip (filter (\<lambda>i. \<not> P ! i) [0 ..< length P]) [0 ..< length P - length (filter id P)]"
proof -
  have "length (filter id P) + length (filter Not P) = length P"
    using sum_length_filter_compl[of id P] by (simp add: comp_def)
  then have n: "length P - length (filter id P) = length (filter Not P)" by simp
  have "map (\<lambda>i. (i, physical_of P i)) (filter (\<lambda>i. \<not> P ! i) [0 ..< length P])
        = zip (filter (\<lambda>i. \<not> P ! i) [0 ..< length P])
              (map (physical_of P) (filter (\<lambda>i. \<not> P ! i) [0 ..< length P]))"
    by (simp add: zip_map2 zip_same_conv_map)
  then show ?thesis by (simp add: walk_numbers n)
qed

subsection \<open>The sample ratio\<close>

lemma sampleRatio_pos:
  assumes "0 < S"
  shows "0 < sampleRatio r0 S"
proof -
  have e: "0 < FLT_EPSILON" by (simp add: FLT_EPSILON_def)
  have "0 < (if r0 > FLT_EPSILON then r0 else 0.05)" using e by auto
  moreover have "0 < real_of_int INT32_MAX * 0.95 / real_of_int S"
    using assms by (simp add: INT32_MAX_def)
  ultimately show ?thesis
    unfolding sampleRatio_def Let_def by (simp only: min_less_iff_conj if_split) auto
qed

lemma sampleRatio_le_half: "sampleRatio r0 S \<le> 0.5"
  unfolding sampleRatio_def Let_def by simp

lemma sampleRatio_volume:
  assumes "0 < S"
  shows "sampleRatio r0 S * real_of_int S < 0.95 * 2 ^ 31"
proof -
  define r where "r = (if r0 > FLT_EPSILON then r0 else 0.05)"
  define r' where "r' = (if real_of_int S * r \<ge> real_of_int INT32_MAX * 0.95
               then real_of_int INT32_MAX * 0.95 / real_of_int S else r)"
  have S: "0 < real_of_int S" using assms by simp
  have lim: "real_of_int INT32_MAX * 0.95 < 0.95 * 2 ^ 31" by (simp add: INT32_MAX_def)
  have "r' * real_of_int S \<le> real_of_int INT32_MAX * 0.95"
  proof (cases "real_of_int S * r \<ge> real_of_int INT32_MAX * 0.95")
    case True
    then have "r' = real_of_int INT32_MAX * 0.95 / real_of_int S" by (simp add: r'_def)
    then show ?thesis using S by simp
  next
    case False
    then have "r' = r" by (simp add: r'_def)
    then show ?thesis using False by (simp add: mult.commute)
  qed
  moreover have "min r' 0.5 * real_of_int S \<le> r' * real_of_int S"
    using S by (simp add: mult_right_mono)
  moreover have "sampleRatio r0 S = min r' 0.5"
    by (simp add: sampleRatio_def Let_def r'_def r_def)
  ultimately have "sampleRatio r0 S * real_of_int S \<le> real_of_int INT32_MAX * 0.95"
    by (simp only: order_trans)
  then show ?thesis using lim by (rule le_less_trans)
qed

text \<open>
  C2. For every total inflated size \<open>S > 0\<close> and every requested ratio \<open>r0 \<ge> 0\<close>, the
  effective sample ratio \<open>r'\<close> that \<^verbatim>\<open>build_by_iter\<close> computes satisfies \<open>0 < r' \<le> 0.5\<close> and
  \<open>r' * S < 0.95 * 2^31\<close>, strictly. (The code compares with and divides
  \<^verbatim>\<open>INT32_MAX * 0.95\<close>, that is \<open>(2^31 - 1) * 0.95\<close>, which is what makes the bound strict.)
\<close>

theorem C2_effective_sample_ratio:
  assumes "0 < S" and "0 \<le> r0"
  shows "0 < sampleRatio r0 S \<and> sampleRatio r0 S \<le> 0.5
         \<and> sampleRatio r0 S * real_of_int S < 0.95 * 2 ^ 31"
  using assms sampleRatio_pos sampleRatio_le_half sampleRatio_volume by blast

theorem C2_effective_sample_ratio_witness:
  "(0::int) < 10000000000 \<and> (0::real) \<le> 0.3
   \<and> 0 < sampleRatio 0.3 10000000000 \<and> sampleRatio 0.3 10000000000 \<le> 0.5
   \<and> sampleRatio 0.3 10000000000 * real_of_int 10000000000 < 0.95 * 2 ^ 31"
proof -
  have h1: "(0::int) < 10000000000" by simp
  have h2: "(0::real) \<le> 0.3" by simp
  show ?thesis using h1 h2 C2_effective_sample_ratio [OF h1 h2] by simp
qed

subsection \<open>The shape of a run\<close>

lemmas build_defs = build_by_iter_def build_purge_def build_no_purge_def store_of_def
  for_loop.simps sampling_body_def recording_body_def sampling_step_def
  sample_record_def increment_def init_locals_def terark_bit_test_def check_physicNum_def
  emptyCheckProtect_def Let_def sampleUpperBound_def sampleRatio_def FLT_EPSILON_def
  INT32_MAX_def upt_rec not_deleted_def finish_def pass1_def pass2_def

lemma check_physicNum_events [simp]:
  "visits (check_physicNum n a b c) = []" "candidates (check_physicNum n a b c) = []"
  "added (check_physicNum n a b c) = []" "samples (check_physicNum n a b c) = []"
  by (simp_all add: check_physicNum_def)

lemma emptyCheckProtect_events [simp]:
  "visits (emptyCheckProtect n r) = []" "candidates (emptyCheckProtect n r) = []"
  "added (emptyCheckProtect n r) = []"
  by (simp_all add: emptyCheckProtect_def)

lemma finish_events [simp]:
  "visits finish = []" "candidates finish = []" "added finish = []" "samples finish = []"
  by (simp_all add: finish_def)

lemma check_physicNum_sampling: "\<forall>e\<in>set (check_physicNum n a b c). sampling_event e"
  by (simp add: check_physicNum_def)

lemma check_physicNum_recording: "\<forall>e\<in>set (check_physicNum n a b c). recording_event e"
  by (simp add: check_physicNum_def)

lemma emptyCheckProtect_sampling: "\<forall>e\<in>set (emptyCheckProtect n r). sampling_event e"
  by (simp add: emptyCheckProtect_def)

lemma pass1_split:
  assumes "\<forall>e\<in>set pre. sampling_event e"
  shows "pass1 (pre @ Lock # Prepare n f # IterReset # post) = pre @ [Lock, Prepare n f]"
proof -
  have "\<forall>e\<in>set (pre @ [Lock, Prepare n f]). e \<noteq> IterReset" using assms by auto
  then have "takeWhile (\<lambda>e. e \<noteq> IterReset) ((pre @ [Lock, Prepare n f]) @ IterReset # post)
             = pre @ [Lock, Prepare n f]"
    by (subst takeWhile_append2) auto
  then show ?thesis by (simp add: pass1_def)
qed

lemma pass2_split:
  assumes "\<forall>e\<in>set pre. sampling_event e"
  shows "pass2 (pre @ Lock # Prepare n f # IterReset # post) = post"
proof -
  have "\<forall>e\<in>set (pre @ [Lock, Prepare n f]). e \<noteq> IterReset" using assms by auto
  then have "dropWhile (\<lambda>e. e \<noteq> IterReset) ((pre @ [Lock, Prepare n f]) @ IterReset # post)
             = IterReset # post"
    by (subst dropWhile_append2) auto
  then show ?thesis by (simp add: pass2_def)
qed

lemma build_no_purge_shape:
  assumes "build_no_purge fpath it isDel ub rnd recId0 = (tr, out)"
  obtains ev1 st where
    "sampling_pass isDel ub rnd (increments it) (init_locals recId0) = (ev1, st)"
    and "tr = (ev1 @ emptyCheckProtect (sampled st) (rec st))
              @ Lock # Prepare (recId st + 1) fpath # IterReset
              # (recording_pass isDel (increments it) @ finish)"
    and "out = Completed"
  using assms by (auto simp: build_no_purge_def split: prod.splits)

lemma build_purge_shape:
  assumes "build_purge fpath it store isDel P ub rnd recId0 = (tr, out)"
  obtains (no_bitmap) "isDel = None" and "tr = []" and "out = Failed AssertionFailed"
  | (abort1) del ev1 where "isDel = Some del"
      and "for_loop (sampling_body it del P ub rnd (numDataRows store)) (length P) 0
             (init_locals recId0) = (ev1, Inl Abort)"
      and "tr = ev1" and "out = Failed Abort"
  | (abort2) del ev1 st ev2 where "isDel = Some del"
      and "for_loop (sampling_body it del P ub rnd (numDataRows store)) (length P) 0
             (init_locals recId0) = (ev1, Inr st)"
      and "for_loop (recording_body del P (numDataRows store)) (length P) 0
             (st\<lparr>cursor := increments it, physicId := 0\<rparr>) = (ev2, Inl Abort)"
      and "tr = (ev1 @ check_physicNum 222 (physicId st) (numDataRows store) (length P)
                   @ emptyCheckProtect (sampled st) (rec st))
                @ Lock # Prepare (newPhysicId st) fpath # IterReset # ev2"
      and "out = Failed Abort"
  | (completed) del ev1 st ev2 st2 where "isDel = Some del"
      and "for_loop (sampling_body it del P ub rnd (numDataRows store)) (length P) 0
             (init_locals recId0) = (ev1, Inr st)"
      and "for_loop (recording_body del P (numDataRows store)) (length P) 0
             (st\<lparr>cursor := increments it, physicId := 0\<rparr>) = (ev2, Inr st2)"
      and "tr = (ev1 @ check_physicNum 222 (physicId st) (numDataRows store) (length P)
                   @ emptyCheckProtect (sampled st) (rec st))
                @ Lock # Prepare (newPhysicId st) fpath # IterReset
                # (ev2 @ check_physicNum 249 (physicId st2) (numDataRows store) (length P)
                     @ finish)"
      and "out = Completed"
proof (cases isDel)
  case None
  then show ?thesis using assms no_bitmap by (simp add: build_purge_def)
next
  case (Some del)
  obtain ev1 r1 where l1: "for_loop (sampling_body it del P ub rnd (numDataRows store)) (length P) 0
             (init_locals recId0) = (ev1, r1)"
    by (cases "for_loop (sampling_body it del P ub rnd (numDataRows store)) (length P) 0
             (init_locals recId0)")
  show ?thesis
  proof (cases r1)
    case (Inl f)
    then have "f = Abort" using l1 sampling_loop_failure by blast
    then show ?thesis using assms Some l1 Inl abort1 by (simp add: build_purge_def Let_def)
  next
    case (Inr st)
    obtain ev2 r2 where l2: "for_loop (recording_body del P (numDataRows store)) (length P) 0
             (st\<lparr>cursor := increments it, physicId := 0\<rparr>) = (ev2, r2)"
      by (cases "for_loop (recording_body del P (numDataRows store)) (length P) 0
             (st\<lparr>cursor := increments it, physicId := 0\<rparr>)")
    show ?thesis
    proof (cases r2)
      case (Inl f)
      then have "f = Abort" using l2 recording_loop_failure by blast
      then show ?thesis using assms Some l1 Inr l2 Inl abort2[of del ev1 st ev2]
        by (simp add: build_purge_def Let_def)
    next
      case r: (Inr st2)
      show ?thesis using assms Some l1 Inr l2 r completed[of del ev1 st ev2 st2]
        by (simp add: build_purge_def Let_def)
    qed
  qed
qed

lemma build_by_iter_shape:
  assumes "build_by_iter sch fpath it isDel isPurged rnd recId0 = (tr, out)"
  obtains (invalid) "tr = []" and "out = Failed InvalidArgument"
  | (no_purge) store where "getStore it = Some store"
      and "isPurged = None \<or> isPurged = Some []"
      and "build_no_purge fpath it isDel
             (sampleUpperBound (sampleRatio (m_dictZipSampleRatio sch) (dataInflateSize store)))
             rnd recId0 = (tr, out)"
  | (purge) store P where "getStore it = Some store" and "isPurged = Some P" and "P \<noteq> []"
      and "build_purge fpath it store isDel P
             (sampleUpperBound (sampleRatio (m_dictZipSampleRatio sch) (dataInflateSize store)))
             rnd recId0 = (tr, out)"
  using assms
  by (cases isPurged) (auto simp: build_by_iter_def Let_def split: if_splits option.splits)

lemma live_ids_no_purge:
  "isPurged = None \<or> isPurged = Some []
   \<Longrightarrow> live_ids it isDel isPurged = filter (not_deleted isDel) (map fst (increments it))"
  by (auto simp: live_ids_def)

lemma live_ids_purge:
  "P \<noteq> [] \<Longrightarrow> live_ids it (Some del) (Some P)
     = filter (\<lambda>l. \<not> P ! l \<and> \<not> del l) [0 ..< length P]"
  by (simp add: live_ids_def not_deleted_def terark_bit_test_def)

lemma init_locals_fields [simp]:
  "physicId (init_locals r) = 0" "newPhysicId (init_locals r) = 0" "sampled (init_locals r) = 0"
  "rec (init_locals r) = []" "recId (init_locals r) = r"
  by (simp_all add: init_locals_def)

lemma no_purge_passes:
  assumes "build_no_purge fpath it isDel ub rnd recId0 = (tr, out)"
  shows "candidates (pass1 tr)
           = map (\<lambda>x. (fst x, fst x)) (filter (\<lambda>x. not_deleted isDel (fst x)) (increments it))"
    and "added (pass2 tr)
           = map (\<lambda>x. (fst x, fst x)) (filter (\<lambda>x. not_deleted isDel (fst x)) (increments it))"
    and "visits (pass1 tr) = map (\<lambda>x. (fst x, fst x)) (increments it)"
    and "visits (pass2 tr) = map (\<lambda>x. (fst x, fst x)) (increments it)"
proof -
  from assms obtain ev1 st where
    s: "sampling_pass isDel ub rnd (increments it) (init_locals recId0) = (ev1, st)"
    and tr: "tr = (ev1 @ emptyCheckProtect (sampled st) (rec st))
              @ Lock # Prepare (recId st + 1) fpath # IterReset
              # (recording_pass isDel (increments it) @ finish)"
    by (rule build_no_purge_shape)
  have pre: "\<forall>e\<in>set (ev1 @ emptyCheckProtect (sampled st) (rec st)). sampling_event e"
    using sampling_pass_events[OF s] emptyCheckProtect_sampling by auto
  have p1: "pass1 tr = (ev1 @ emptyCheckProtect (sampled st) (rec st))
                        @ [Lock, Prepare (recId st + 1) fpath]"
    unfolding tr by (rule pass1_split[OF pre])
  have p2: "pass2 tr = recording_pass isDel (increments it) @ finish"
    unfolding tr by (rule pass2_split[OF pre])
  show "candidates (pass1 tr)
           = map (\<lambda>x. (fst x, fst x)) (filter (\<lambda>x. not_deleted isDel (fst x)) (increments it))"
    by (simp add: p1 sampling_pass_candidates[OF s])
  show "added (pass2 tr)
           = map (\<lambda>x. (fst x, fst x)) (filter (\<lambda>x. not_deleted isDel (fst x)) (increments it))"
    by (simp add: p2 recording_pass_added)
  show "visits (pass1 tr) = map (\<lambda>x. (fst x, fst x)) (increments it)"
    by (simp add: p1 sampling_pass_visits[OF s])
  show "visits (pass2 tr) = map (\<lambda>x. (fst x, fst x)) (increments it)"
    by (simp add: p2 recording_pass_visits)
qed

lemma purge_passes:
  assumes "build_purge fpath it store isDel P ub rnd recId0 = (tr, Completed)"
  obtains del where "isDel = Some del"
    and "candidates (pass1 tr)
           = map (\<lambda>i. (i, physical_of P i)) (filter (\<lambda>i. \<not> P ! i \<and> \<not> del i) [0 ..< length P])"
    and "added (pass2 tr)
           = map (\<lambda>i. (i, physical_of P i)) (filter (\<lambda>i. \<not> P ! i \<and> \<not> del i) [0 ..< length P])"
    and "visits (pass1 tr)
           = map (\<lambda>i. (i, physical_of P i)) (filter (\<lambda>i. \<not> P ! i) [0 ..< length P])"
    and "visits (pass2 tr)
           = map (\<lambda>i. (i, physical_of P i)) (filter (\<lambda>i. \<not> P ! i) [0 ..< length P])"
  using assms
proof (cases rule: build_purge_shape)
  case (completed del ev1 st ev2 st2)
  let ?chk = "check_physicNum 222 (physicId st) (numDataRows store) (length P)"
  let ?pre = "ev1 @ ?chk @ emptyCheckProtect (sampled st) (rec st)"
  let ?post = "ev2 @ check_physicNum 249 (physicId st2) (numDataRows store) (length P) @ finish"
  have pre: "\<forall>e\<in>set ?pre. sampling_event e"
    using sampling_loop_events[OF completed(2)] emptyCheckProtect_sampling
      check_physicNum_sampling by auto
  have p1: "pass1 tr = ?pre @ [Lock, Prepare (newPhysicId st) fpath]"
    unfolding completed(4) by (rule pass1_split[OF pre])
  have p2: "pass2 tr = ?post"
    unfolding completed(4) by (rule pass2_split[OF pre])
  have L1: "physicId st = physical_of P (length P)
    \<and> visits ev1 = map (\<lambda>i. (i, physical_of P i)) (filter (\<lambda>i. \<not> P ! i) [0 ..< length P])
    \<and> candidates ev1 = map (\<lambda>i. (i, physical_of P i))
                         (filter (\<lambda>i. \<not> P ! i \<and> \<not> del i) [0 ..< length P])
    \<and> newPhysicId st = newPhysicId (init_locals recId0) + length (candidates ev1)
    \<and> sampled st = sampled (init_locals recId0) + length (samples ev1)
    \<and> (\<forall>e\<in>set ev1. sampling_event e)"
    by (rule sampling_loop_Inr[OF completed(2)]) simp_all
  have L2: "physicId st2 = physical_of P (length P)
    \<and> visits ev2 = map (\<lambda>i. (i, physical_of P i)) (filter (\<lambda>i. \<not> P ! i) [0 ..< length P])
    \<and> added ev2 = map (\<lambda>i. (i, physical_of P i))
                         (filter (\<lambda>i. \<not> P ! i \<and> \<not> del i) [0 ..< length P])"
    by (rule recording_loop_Inr[OF completed(3)]) simp_all
  show ?thesis
    using that[OF completed(1)] L1 L2 by (simp add: p1 p2)
qed simp_all

lemmas scenario_defs = default_schema_def always_sample_def never_sample_def

lemma quiet_events [simp]:
  "added_records (check_physicNum n a b c) = []" "added_records (emptyCheckProtect m r) = []"
  "added_records finish = []"
  by (simp_all add: check_physicNum_def emptyCheckProtect_def finish_def)

lemma sampling_only_passes:
  assumes "\<forall>e\<in>set tr. sampling_event e"
  shows "pass1 tr = tr" and "pass2 tr = []"
proof -
  have n: "\<forall>e\<in>set tr. e \<noteq> IterReset" using assms by auto
  then have d: "dropWhile (\<lambda>e. e \<noteq> IterReset) tr = []" by (simp add: dropWhile_eq_Nil_conv)
  show "pass2 tr = []" unfolding pass2_def d by simp
  show "pass1 tr = tr" using n by (simp add: pass1_def takeWhile_eq_all_conv)
qed

lemma no_purge_records:
  assumes "build_no_purge fpath it isDel ub rnd recId0 = (tr, out)"
  shows "added_records (pass2 tr) = filter (\<lambda>x. not_deleted isDel (fst x)) (increments it)"
    and "out = Completed"
proof -
  from assms obtain ev1 st where
    s: "sampling_pass isDel ub rnd (increments it) (init_locals recId0) = (ev1, st)"
    and tr: "tr = (ev1 @ emptyCheckProtect (sampled st) (rec st))
              @ Lock # Prepare (recId st + 1) fpath # IterReset
              # (recording_pass isDel (increments it) @ finish)"
    and out: "out = Completed"
    by (rule build_no_purge_shape)
  have pre: "\<forall>e\<in>set (ev1 @ emptyCheckProtect (sampled st) (rec st)). sampling_event e"
    using sampling_pass_events[OF s] emptyCheckProtect_sampling by auto
  have p2: "pass2 tr = recording_pass isDel (increments it) @ finish"
    unfolding tr by (rule pass2_split[OF pre])
  show "added_records (pass2 tr) = filter (\<lambda>x. not_deleted isDel (fst x)) (increments it)"
    by (simp add: p2 recording_pass_added_records)
  show "out = Completed" by (rule out)
qed

lemma purge_run:
  assumes "build_purge fpath it store isDel P ub rnd recId0 = (tr, out)"
  shows "prefix (added (pass2 tr)) (candidates (pass1 tr))"
    and "subseq (added_records (pass2 tr)) (increments it)"
    and "\<forall>x\<in>set (candidates (pass1 tr)). seekExact it (snd x) \<noteq> None"
proof -
  have "prefix (added (pass2 tr)) (candidates (pass1 tr))
        \<and> subseq (added_records (pass2 tr)) (increments it)
        \<and> (\<forall>x\<in>set (candidates (pass1 tr)). seekExact it (snd x) \<noteq> None)"
    using assms
  proof (cases rule: build_purge_shape)
    case no_bitmap
    then show ?thesis by (simp add: pass1_def pass2_def)
  next
    case (abort1 del ev1)
    have e: "\<forall>e\<in>set tr. sampling_event e"
      using sampling_loop_events[OF abort1(2)] abort1(3) by simp
    have c: "\<forall>x\<in>set (candidates ev1). seekExact it (snd x) \<noteq> None"
      using sampling_loop_candidates_found[OF abort1(2)] by simp
    show ?thesis using sampling_only_passes[OF e] c abort1(3) by simp
  next
    case (abort2 del ev1 st ev2)
    let ?pre = "ev1 @ check_physicNum 222 (physicId st) (numDataRows store) (length P)
                  @ emptyCheckProtect (sampled st) (rec st)"
    have pre: "\<forall>e\<in>set ?pre. sampling_event e"
      using sampling_loop_events[OF abort2(2)] emptyCheckProtect_sampling
        check_physicNum_sampling by auto
    have p1: "pass1 tr = ?pre @ [Lock, Prepare (newPhysicId st) fpath]"
      unfolding abort2(4) by (rule pass1_split[OF pre])
    have p2: "pass2 tr = ev2"
      unfolding abort2(4) by (rule pass2_split[OF pre])
    have L1: "candidates ev1 = map (\<lambda>i. (i, physical_of P i))
                         (filter (\<lambda>i. \<not> P ! i \<and> \<not> del i) [0 ..< length P])"
      using sampling_loop_Inr[OF abort2(2)] by simp
    have a: "prefix (added ev2) (map (\<lambda>i. (i, physical_of P i))
                         (filter (\<lambda>i. \<not> P ! i \<and> \<not> del i) [0 ..< length P]))"
      by (rule recording_loop_added_prefix[OF abort2(3)]) simp_all
    have r: "subseq (added_records ev2) (increments it)"
      using recording_loop_subseq[OF abort2(3)] by simp
    have c: "\<forall>x\<in>set (candidates ev1). seekExact it (snd x) \<noteq> None"
      using sampling_loop_candidates_found[OF abort2(2)] by simp
    show ?thesis using a r c L1 by (simp add: p1 p2)
  next
    case (completed del ev1 st ev2 st2)
    let ?pre = "ev1 @ check_physicNum 222 (physicId st) (numDataRows store) (length P)
                  @ emptyCheckProtect (sampled st) (rec st)"
    let ?post = "ev2 @ check_physicNum 249 (physicId st2) (numDataRows store) (length P)
                   @ finish"
    have pre: "\<forall>e\<in>set ?pre. sampling_event e"
      using sampling_loop_events[OF completed(2)] emptyCheckProtect_sampling
        check_physicNum_sampling by auto
    have p1: "pass1 tr = ?pre @ [Lock, Prepare (newPhysicId st) fpath]"
      unfolding completed(4) by (rule pass1_split[OF pre])
    have p2: "pass2 tr = ?post"
      unfolding completed(4) by (rule pass2_split[OF pre])
    have L1: "candidates ev1 = map (\<lambda>i. (i, physical_of P i))
                         (filter (\<lambda>i. \<not> P ! i \<and> \<not> del i) [0 ..< length P])"
      using sampling_loop_Inr[OF completed(2)] by simp
    have a: "prefix (added ev2) (map (\<lambda>i. (i, physical_of P i))
                         (filter (\<lambda>i. \<not> P ! i \<and> \<not> del i) [0 ..< length P]))"
      by (rule recording_loop_added_prefix[OF completed(3)]) simp_all
    have r: "subseq (added_records ev2) (increments it)"
      using recording_loop_subseq[OF completed(3)] by simp
    have c: "\<forall>x\<in>set (candidates ev1). seekExact it (snd x) \<noteq> None"
      using sampling_loop_candidates_found[OF completed(2)] by simp
    show ?thesis using a r c L1 by (simp add: p1 p2)
  qed
  then show "prefix (added (pass2 tr)) (candidates (pass1 tr))"
    and "subseq (added_records (pass2 tr)) (increments it)"
    and "\<forall>x\<in>set (candidates (pass1 tr)). seekExact it (snd x) \<noteq> None"
    by simp_all
qed

subsection \<open>The claims about build\_by\_iter\<close>

text \<open>
  C1 as stated fails: in scenario D pass 1 fetches the record of physical id 0 and then
  \<^verbatim>\<open>abort()\<close> ends the build at the \<^verbatim>\<open>seekExact\<close> miss for physical id 1, so pass 2 submits
  nothing.
\<close>

theorem C1_counterexample:
  "candidates (pass1 (fst scenario_D)) = [(0, 0)] \<and> added (pass2 (fst scenario_D)) = []
   \<and> candidates (pass1 (fst scenario_D)) \<noteq> added (pass2 (fst scenario_D))
   \<and> snd scenario_D = Failed Abort"
  by (simp add: scenario_D_def scenario_defs build_defs)

text \<open>
  C1, amended. For every source store, deletion bitmap and purge bitmap, the ordered list
  of physical ids whose records pass 2 submits with \<^verbatim>\<open>addRecord\<close> is an initial segment of
  the ordered list of physical ids for which pass 1 fetches a record and may sample it,
  and in every build that runs to completion the two lists are equal, under the same
  liveness predicate: their logical ids are exactly the live ids (not purged and not
  deleted). The ids on the side of pass 2 are those under which the iterator yields the
  records, and the records submitted are, in order, records the iterator yields; with a
  purge bitmap every id on the side of pass 1 is one under which \<^verbatim>\<open>seekExact\<close> found a
  record.
\<close>

theorem C1_passes_same_sequence:
  assumes "build_by_iter sch fpath it isDel isPurged rnd recId0 = (tr, out)"
  shows "prefix (added (pass2 tr)) (candidates (pass1 tr))
       \<and> subseq (added_records (pass2 tr)) (increments it)
       \<and> map snd (added (pass2 tr)) = map fst (added_records (pass2 tr))
       \<and> (\<forall>P. isPurged = Some P \<and> P \<noteq> []
             \<longrightarrow> (\<forall>x\<in>set (candidates (pass1 tr)). seekExact it (snd x) \<noteq> None))
       \<and> (out = Completed
             \<longrightarrow> candidates (pass1 tr) = added (pass2 tr)
               \<and> map fst (candidates (pass1 tr)) = live_ids it isDel isPurged)"
proof -
  have tags: "map snd (added ev) = map fst (added_records ev)" for ev
    by (induction ev rule: added.induct) auto
  from assms show ?thesis
  proof (cases rule: build_by_iter_shape)
    case invalid
    then show ?thesis by (simp add: pass1_def pass2_def)
  next
    case (no_purge store)
    have eq: "candidates (pass1 tr) = added (pass2 tr)"
      using no_purge_passes(1,2)[OF no_purge(3)] by simp
    have live: "map fst (candidates (pass1 tr)) = live_ids it isDel isPurged"
      using no_purge_passes(1)[OF no_purge(3)] live_ids_no_purge[OF no_purge(2)]
      by (simp add: filter_map comp_def)
    have "subseq (added_records (pass2 tr)) (increments it)"
      using no_purge_records(1)[OF no_purge(3)] by simp
    then show ?thesis using eq live tags[of "pass2 tr"] no_purge(2) by auto
  next
    case (purge store P)
    have general: "prefix (added (pass2 tr)) (candidates (pass1 tr))
        \<and> subseq (added_records (pass2 tr)) (increments it)
        \<and> (\<forall>x\<in>set (candidates (pass1 tr)). seekExact it (snd x) \<noteq> None)"
      using purge_run[OF purge(4)] by simp
    have comp: "candidates (pass1 tr) = added (pass2 tr)
               \<and> map fst (candidates (pass1 tr)) = live_ids it isDel isPurged"
      if c: "out = Completed"
    proof -
      from purge(4)[unfolded c] obtain del where d: "isDel = Some del"
        and c1: "candidates (pass1 tr)
           = map (\<lambda>i. (i, physical_of P i)) (filter (\<lambda>i. \<not> P ! i \<and> \<not> del i) [0 ..< length P])"
        and a: "added (pass2 tr)
           = map (\<lambda>i. (i, physical_of P i)) (filter (\<lambda>i. \<not> P ! i \<and> \<not> del i) [0 ..< length P])"
        by (rule purge_passes)
      show ?thesis using c1 a live_ids_purge[OF purge(3)] by (simp add: d purge(2) comp_def)
    qed
    show ?thesis using general tags[of "pass2 tr"] comp by blast
  qed
qed

theorem C1_passes_same_sequence_witness:
  "snd scenario_B = Completed
   \<and> candidates (pass1 (fst scenario_B))
       = [(0, 0), (1, 1), (3, 3), (4, 4), (6, 6), (7, 7), (8, 8), (9, 9)]
   \<and> added (pass2 (fst scenario_B)) = candidates (pass1 (fst scenario_B))
   \<and> added_records (pass2 (fst scenario_B))
       = [(0, ''r0''), (1, ''r1''), (3, ''r3''), (4, ''r4''), (6, ''r6''), (7, ''r7''),
          (8, ''r8''), (9, ''r9'')]
   \<and> snd scenario_C = Completed
   \<and> candidates (pass1 (fst scenario_C)) = [(0, 0), (2, 1), (5, 3), (6, 4), (8, 5), (9, 6)]
   \<and> added (pass2 (fst scenario_C)) = candidates (pass1 (fst scenario_C))
   \<and> added_records (pass2 (fst scenario_C))
       = [(0, ''r0''), (1, ''r2''), (3, ''r5''), (4, ''r6''), (5, ''r8''), (6, ''r9'')]
   \<and> subseq (added_records (pass2 (fst scenario_C)))
        (increments (store_of [''r0'', ''r2'', ''r3'', ''r5'', ''r6'', ''r8'', ''r9'']))"
proof -
  have cB: "snd scenario_B = Completed"
    by (simp add: scenario_B_def scenario_defs build_defs)
  have hB: "build_by_iter default_schema ''out''
     (store_of [''r0'', ''r1'', ''r2'', ''r3'', ''r4'', ''r5'', ''r6'', ''r7'', ''r8'', ''r9''])
     (Some (\<lambda>i. i = 2 \<or> i = 5)) None always_sample 0 = (fst scenario_B, Completed)"
    using cB by (simp add: scenario_B_def prod_eq_iff)
  have eB: "candidates (pass1 (fst scenario_B))
       = [(0, 0), (1, 1), (3, 3), (4, 4), (6, 6), (7, 7), (8, 8), (9, 9)]"
    by (simp add: scenario_B_def scenario_defs build_defs)
  have rB: "added_records (pass2 (fst scenario_B))
       = [(0, ''r0''), (1, ''r1''), (3, ''r3''), (4, ''r4''), (6, ''r6''), (7, ''r7''),
          (8, ''r8''), (9, ''r9'')]"
    by (simp add: scenario_B_def scenario_defs build_defs)
  have cC: "snd scenario_C = Completed"
    by (simp add: scenario_C_def scenario_defs build_defs)
  have hC: "build_by_iter default_schema ''out''
     (store_of [''r0'', ''r2'', ''r3'', ''r5'', ''r6'', ''r8'', ''r9''])
     (Some (\<lambda>i. i = 3))
     (Some [False, True, False, False, True, False, False, True, False, False])
     always_sample 0 = (fst scenario_C, Completed)"
    using cC by (simp add: scenario_C_def prod_eq_iff)
  have eC: "candidates (pass1 (fst scenario_C)) = [(0, 0), (2, 1), (5, 3), (6, 4), (8, 5), (9, 6)]"
    by (simp add: scenario_C_def scenario_defs build_defs)
  have rC: "added_records (pass2 (fst scenario_C))
       = [(0, ''r0''), (1, ''r2''), (3, ''r5''), (4, ''r6''), (5, ''r8''), (6, ''r9'')]"
    by (simp add: scenario_C_def scenario_defs build_defs)
  have B: "added (pass2 (fst scenario_B)) = candidates (pass1 (fst scenario_B))"
    using C1_passes_same_sequence[OF hB] by simp
  have C: "added (pass2 (fst scenario_C)) = candidates (pass1 (fst scenario_C))
           \<and> subseq (added_records (pass2 (fst scenario_C)))
               (increments (store_of [''r0'', ''r2'', ''r3'', ''r5'', ''r6'', ''r8'', ''r9'']))"
    using C1_passes_same_sequence[OF hC] by simp
  show ?thesis using cB eB rB B cC eC rC C by simp
qed

text \<open>
  C3. The walk maps logical ids to physical ids correctly in both modes, in every build
  that runs to completion. Without a purge bitmap (absent or empty) each pass handles the
  record with physical id \<open>k\<close> as logical id \<open>k\<close>. With a purge bitmap \<open>P\<close> over \<open>N\<close> logical
  ids, \<open>p\<close> of them purged, each pass pairs the non-purged logical ids, in order, with
  the physical ids \<open>0, 1, ..., N - p - 1\<close>: the \<open>j\<close>-th non-purged logical id gets physical
  id \<open>j\<close>, a purged id gets none, and \<open>N - p\<close> physical ids are produced.
\<close>

theorem C3_walk:
  assumes "build_by_iter sch fpath it isDel isPurged rnd recId0 = (tr, Completed)"
  shows "(isPurged = None \<or> isPurged = Some []
            \<longrightarrow> visits (pass1 tr) = map (\<lambda>x. (fst x, fst x)) (increments it)
              \<and> visits (pass2 tr) = visits (pass1 tr))
       \<and> (\<forall>P. isPurged = Some P \<and> P \<noteq> []
            \<longrightarrow> visits (pass1 tr)
                  = zip (filter (\<lambda>l. \<not> P ! l) [0 ..< length P])
                        [0 ..< length P - length (filter id P)]
              \<and> visits (pass2 tr) = visits (pass1 tr)
              \<and> length (visits (pass1 tr)) = length P - length (filter id P))"
  using assms
proof (cases rule: build_by_iter_shape)
  case invalid
  then show ?thesis by simp
next
  case (no_purge store)
  show ?thesis
    using no_purge_passes(3,4)[OF no_purge(3)] no_purge(2) by auto
next
  case (purge store P)
  from purge(4) obtain del where
    v1: "visits (pass1 tr)
           = map (\<lambda>i. (i, physical_of P i)) (filter (\<lambda>i. \<not> P ! i) [0 ..< length P])"
    and v2: "visits (pass2 tr)
           = map (\<lambda>i. (i, physical_of P i)) (filter (\<lambda>i. \<not> P ! i) [0 ..< length P])"
    by (rule purge_passes)
  have "length (filter id P) + length (filter Not P) = length P"
    using sum_length_filter_compl[of id P] by (simp add: comp_def)
  then have n: "length P - length (filter id P) = length (filter Not P)" by simp
  have len: "length (filter (\<lambda>i. \<not> P ! i) [0 ..< length P]) = length (filter Not P)"
    using walk_numbers[of P, THEN arg_cong, of length] by simp
  have z: "visits (pass1 tr) = zip (filter (\<lambda>l. \<not> P ! l) [0 ..< length P])
                        [0 ..< length P - length (filter id P)]"
    using v1 walk_zip by simp
  have l: "length (visits (pass1 tr)) = length P - length (filter id P)"
    by (simp add: v1 len n)
  show ?thesis using z v1 v2 l purge(2,3) by simp
qed

theorem C3_walk_witness:
  "snd scenario_B = Completed
   \<and> visits (pass1 (fst scenario_B))
       = [(0, 0), (1, 1), (2, 2), (3, 3), (4, 4), (5, 5), (6, 6), (7, 7), (8, 8), (9, 9)]
   \<and> visits (pass2 (fst scenario_B)) = visits (pass1 (fst scenario_B))
   \<and> snd scenario_C = Completed
   \<and> visits (pass1 (fst scenario_C))
       = [(0, 0), (2, 1), (3, 2), (5, 3), (6, 4), (8, 5), (9, 6)]
   \<and> visits (pass2 (fst scenario_C)) = visits (pass1 (fst scenario_C))
   \<and> length (visits (pass1 (fst scenario_C))) = 10 - 3"
proof -
  have cB: "snd scenario_B = Completed"
    by (simp add: scenario_B_def scenario_defs build_defs)
  have hB: "build_by_iter default_schema ''out''
     (store_of [''r0'', ''r1'', ''r2'', ''r3'', ''r4'', ''r5'', ''r6'', ''r7'', ''r8'', ''r9''])
     (Some (\<lambda>i. i = 2 \<or> i = 5)) None always_sample 0 = (fst scenario_B, Completed)"
    using cB by (simp add: scenario_B_def prod_eq_iff)
  have cC: "snd scenario_C = Completed"
    by (simp add: scenario_C_def scenario_defs build_defs)
  have hC: "build_by_iter default_schema ''out''
     (store_of [''r0'', ''r2'', ''r3'', ''r5'', ''r6'', ''r8'', ''r9''])
     (Some (\<lambda>i. i = 3))
     (Some [False, True, False, False, True, False, False, True, False, False])
     always_sample 0 = (fst scenario_C, Completed)"
    using cC by (simp add: scenario_C_def prod_eq_iff)
  have vB: "visits (pass1 (fst scenario_B))
       = [(0, 0), (1, 1), (2, 2), (3, 3), (4, 4), (5, 5), (6, 6), (7, 7), (8, 8), (9, 9)]"
    by (simp add: scenario_B_def scenario_defs build_defs)
  have vC: "visits (pass1 (fst scenario_C))
       = [(0, 0), (2, 1), (3, 2), (5, 3), (6, 4), (8, 5), (9, 6)]"
    by (simp add: scenario_C_def scenario_defs build_defs)
  have B: "visits (pass2 (fst scenario_B)) = visits (pass1 (fst scenario_B))"
    using C3_walk[OF hB] by simp
  have C: "visits (pass2 (fst scenario_C)) = visits (pass1 (fst scenario_C))"
    using C3_walk[OF hC] by simp
  show ?thesis using B C cB cC vB vC by simp
qed

lemma sampling_no_prepare:
  assumes "\<forall>e\<in>set ev. sampling_event e"
  shows "Prepare n f \<notin> set ev"
proof
  assume "Prepare n f \<in> set ev"
  with assms have "sampling_event (Prepare n f)" by blast
  then show False by simp
qed

lemma recording_no_prepare:
  assumes "\<forall>e\<in>set ev. recording_event e"
  shows "Prepare n f \<notin> set ev"
proof
  assume "Prepare n f \<in> set ev"
  with assms have "recording_event (Prepare n f)" by blast
  then show False by simp
qed

text \<open>
  The count that \<^verbatim>\<open>prepare\<close> is given: with a purge bitmap the number of live records
  pass 1 held; without one the last id the iterator yielded plus one (or the
  uninitialised \<^verbatim>\<open>recId\<close> plus one when it yielded nothing), whatever is deleted.
\<close>

lemma prepare_count_purge:
  assumes "build_by_iter sch fpath it isDel (Some P) rnd recId0 = (tr, out)"
    and "P \<noteq> []" and "Prepare n f \<in> set tr"
  shows "n = length (candidates (pass1 tr))"
proof -
  have L: "\<not> (\<forall>e\<in>set tr. sampling_event e)" using assms(3) sampling_no_prepare by blast
  from assms(1) show ?thesis
  proof (cases rule: build_by_iter_shape)
    case invalid
    then show ?thesis using assms(3) by simp
  next
    case (no_purge store)
    then show ?thesis using assms(2) by simp
  next
    case (purge store P')
    then have P': "P' = P" by simp
    from purge(4) show ?thesis
    proof (cases rule: build_purge_shape)
      case no_bitmap
      then show ?thesis using assms(3) by simp
    next
      case (abort1 del ev1)
      have "\<forall>e\<in>set ev1. sampling_event e" using abort1(2) by (rule sampling_loop_events)
      then show ?thesis using L abort1(3) by simp
    next
      case (abort2 del ev1 st ev2)
      let ?pre = "ev1 @ check_physicNum 222 (physicId st) (numDataRows store) (length P')
                    @ emptyCheckProtect (sampled st) (rec st)"
      have pre: "\<forall>e\<in>set ?pre. sampling_event e"
        using sampling_loop_events[OF abort2(2)] emptyCheckProtect_sampling
          check_physicNum_sampling by auto
      have p1: "pass1 tr = ?pre @ [Lock, Prepare (newPhysicId st) fpath]"
        unfolding abort2(4) by (rule pass1_split[OF pre])
      have c: "newPhysicId st = length (candidates ev1)"
        using sampling_loop_Inr[OF abort2(2)] by simp
      have "\<forall>e\<in>set ev2. recording_event e" using abort2(3) by (rule recording_loop_events)
      then have "n = newPhysicId st"
        using assms(3) sampling_no_prepare[OF pre] recording_no_prepare[of ev2]
        unfolding abort2(4) by auto
      then show ?thesis using c by (simp add: p1)
    next
      case (completed del ev1 st ev2 st2)
      let ?pre = "ev1 @ check_physicNum 222 (physicId st) (numDataRows store) (length P')
                    @ emptyCheckProtect (sampled st) (rec st)"
      let ?ev2 = "ev2 @ check_physicNum 249 (physicId st2) (numDataRows store) (length P')"
      have pre: "\<forall>e\<in>set ?pre. sampling_event e"
        using sampling_loop_events[OF completed(2)] emptyCheckProtect_sampling
          check_physicNum_sampling by auto
      have p1: "pass1 tr = ?pre @ [Lock, Prepare (newPhysicId st) fpath]"
        unfolding completed(4) by (rule pass1_split[OF pre])
      have c: "newPhysicId st = length (candidates ev1)"
        using sampling_loop_Inr[OF completed(2)] by simp
      have "\<forall>e\<in>set ?ev2. recording_event e"
        using recording_loop_events[OF completed(3)] check_physicNum_recording by auto
      then have "n = newPhysicId st"
        using assms(3) sampling_no_prepare[OF pre] recording_no_prepare[of ?ev2]
        unfolding completed(4) by (auto simp: finish_def)
      then show ?thesis using c by (simp add: p1)
    qed
  qed
qed

lemma prepare_count_no_purge:
  assumes "build_by_iter sch fpath it isDel isPurged rnd recId0 = (tr, out)"
    and "isPurged = None \<or> isPurged = Some []" and "Prepare n f \<in> set tr"
  shows "n = (if increments it = [] then recId0 else fst (last (increments it))) + 1"
  using assms(1)
proof (cases rule: build_by_iter_shape)
  case invalid
  then show ?thesis using assms(3) by simp
next
  case (no_purge store)
  from no_purge(3) obtain ev1 st where
    s: "sampling_pass isDel
          (sampleUpperBound (sampleRatio (m_dictZipSampleRatio sch) (dataInflateSize store)))
          rnd (increments it) (init_locals recId0) = (ev1, st)"
    and tr: "tr = (ev1 @ emptyCheckProtect (sampled st) (rec st))
              @ Lock # Prepare (recId st + 1) fpath # IterReset
              # (recording_pass isDel (increments it) @ finish)"
    by (rule build_no_purge_shape)
  have pre: "\<forall>e\<in>set (ev1 @ emptyCheckProtect (sampled st) (rec st)). sampling_event e"
    using sampling_pass_events[OF s] emptyCheckProtect_sampling by auto
  have "n = recId st + 1"
    using assms(3) sampling_no_prepare[OF pre]
      recording_no_prepare[OF recording_pass_events[of isDel "increments it"]]
    unfolding tr by (auto simp: finish_def)
  then show ?thesis using sampling_pass_last[OF s] by simp
next
  case (purge store P)
  then show ?thesis using assms(2) by auto
qed

text \<open>
  C4. The claim says that the count given to \<^verbatim>\<open>prepare\<close> is the number of live records in
  both modes. With a purge bitmap the code passes \<^verbatim>\<open>newPhysicId\<close>, which counts them;
  without one it passes \<^verbatim>\<open>recId + 1\<close>, the last id the iterator yielded plus one. On the
  ten records of scenario B, two of them deleted, \<^verbatim>\<open>prepare\<close> is called with 10 while
  pass 1 holds 8 live records and pass 2 adds 8.
\<close>

theorem C4_prepare_count_no_purge:
  "snd scenario_B = Completed
   \<and> Prepare 10 ''out'' \<in> set (fst scenario_B)
   \<and> length (candidates (pass1 (fst scenario_B))) = 8
   \<and> length (added (pass2 (fst scenario_B))) = 8"
  by (simp add: scenario_B_def scenario_defs build_defs)

text \<open>
  C5 as stated fails: on a \<^verbatim>\<open>seekExact\<close> miss the code calls \<^verbatim>\<open>abort()\<close>, which ends the
  process.
\<close>

theorem C5_counterexample:
  "seekExact (store_of [''r0'']) 1 = None
   \<and> snd scenario_D = Failed Abort \<and> terminates_process Abort"
  by (simp add: scenario_D_def scenario_defs build_defs)

text \<open>
  C5, amended. With a purge bitmap, when \<^verbatim>\<open>seekExact\<close> finds no record for the physical id
  of some live logical id, the build stops at the first such id \<open>l\<close>: the last thing it
  does is print the message naming \<open>l\<close>, its physical id, \<^verbatim>\<open>logicNum\<close> and \<^verbatim>\<open>physicNum\<close>,
  and it ends with \<^verbatim>\<open>abort()\<close>. Up to there it has only sampled: the missing record is
  not skipped, the mutex is not taken, \<^verbatim>\<open>prepare\<close> is not called and no store is made.
\<close>

theorem C5_seek_miss_reported:
  assumes "0 \<le> m_dictZipSampleRatio sch" and "getStore it = Some store"
    and "P \<noteq> []"
    and "m < length P" and "\<not> P ! m" and "\<not> del m"
    and "seekExact it (physical_of P m) = None"
  shows "\<exists>l pre. build_by_iter sch fpath it (Some del) (Some P) rnd recId0
           = (pre @ [Visit l (physical_of P l),
                     Stderr (ErrSeekExact l (physical_of P l) (length P) (numDataRows store))],
              Failed Abort)
         \<and> l \<le> m \<and> \<not> P ! l \<and> \<not> del l \<and> seekExact it (physical_of P l) = None
         \<and> (\<forall>e\<in>set pre. sampling_event e)"
proof -
  let ?ub = "sampleUpperBound (sampleRatio (m_dictZipSampleRatio sch) (dataInflateSize store))"
  let ?loop = "for_loop (sampling_body it del P ?ub rnd (numDataRows store)) (length P) 0
                 (init_locals recId0)"
  obtain ev1 r1 where l1: "?loop = (ev1, r1)" by (cases ?loop)
  have b: "build_by_iter sch fpath it (Some del) (Some P) rnd recId0
           = build_purge fpath it store (Some del) P ?ub rnd recId0"
    using assms(1,2,3) by (simp add: build_by_iter_def)
  show ?thesis
  proof (cases r1)
    case (Inr st)
    have "seekExact it (physical_of P m) \<noteq> None"
      by (rule sampling_loop_Inr_found[OF l1[unfolded Inr], of m]) (use assms in simp_all)
    then show ?thesis using assms(7) by simp
  next
    case (Inl f)
    then have f: "f = Abort" using l1 sampling_loop_failure by blast
    from sampling_loop_Inl[OF l1[unfolded Inl]] obtain l evs where
      l: "l < length P" "\<not> P ! l" "\<not> del l" "seekExact it (physical_of P l) = None"
        "\<forall>i. 0 \<le> i \<and> i < l \<and> \<not> P ! i \<and> \<not> del i \<longrightarrow> seekExact it (physical_of P i) \<noteq> None"
        "ev1 = evs @ [Visit l (physical_of P l),
                      Stderr (ErrSeekExact l (physical_of P l) (length P) (numDataRows store))]"
      by auto
    have "\<not> m < l" using l(5) assms(5,6,7) by auto
    then have lm: "l \<le> m" by simp
    have "\<forall>e\<in>set ev1. sampling_event e" using l1 by (rule sampling_loop_events)
    then have s: "\<forall>e\<in>set evs. sampling_event e" by (simp add: l(6))
    have "build_by_iter sch fpath it (Some del) (Some P) rnd recId0 = (ev1, Failed Abort)"
      using l1 Inl f by (simp add: b build_purge_def Let_def)
    then show ?thesis using l lm s by blast
  qed
qed

theorem C5_seek_miss_reported_witness:
  "(0::real) \<le> m_dictZipSampleRatio default_schema
   \<and> getStore (store_of [''r0'']) = Some \<lparr> dataInflateSize = 2, numDataRows = 1 \<rparr>
   \<and> [False, False] \<noteq> [] \<and> (1::nat) < length [False, False] \<and> \<not> [False, False] ! 1
   \<and> seekExact (store_of [''r0'']) (physical_of [False, False] 1) = None
   \<and> (\<exists>l pre. build_by_iter default_schema ''out'' (store_of [''r0''])
                 (Some (\<lambda>i. False)) (Some [False, False]) always_sample 0
           = (pre @ [Visit l (physical_of [False, False] l),
                     Stderr (ErrSeekExact l (physical_of [False, False] l) (length [False, False])
                               (numDataRows \<lparr> dataInflateSize = 2, numDataRows = 1 \<rparr>))],
              Failed Abort)
         \<and> l \<le> 1 \<and> \<not> [False, False] ! l
         \<and> seekExact (store_of [''r0'']) (physical_of [False, False] l) = None
         \<and> (\<forall>e\<in>set pre. sampling_event e))"
proof -
  have h1: "(0::real) \<le> m_dictZipSampleRatio default_schema" by (simp add: default_schema_def)
  have h2: "getStore (store_of [''r0'']) = Some \<lparr> dataInflateSize = 2, numDataRows = 1 \<rparr>"
    by (simp add: store_of_def)
  have h3: "[False, False] \<noteq> []" by simp
  have h4: "(1::nat) < length [False, False]" by simp
  have h5: "\<not> [False, False] ! 1" by simp
  have h6: "\<not> (\<lambda>i::nat. False) 1" by simp
  have h7: "seekExact (store_of [''r0'']) (physical_of [False, False] 1) = None"
    by (simp add: store_of_def physical_of_def)
  show ?thesis
    using C5_seek_miss_reported[OF h1 h2 h3 h4 h5 h6 h7, of "''out''" always_sample 0]
      h1 h2 h3 h4 h5 h7 by blast
qed

lemma sampling_step_quiet:
  "sampling_step isDel ub rnd i r st = (ev, st') \<Longrightarrow> filter is_stderr ev = []"
  by (auto simp: sampling_step_def sample_record_def Let_def split: if_splits)

lemma sampling_pass_quiet:
  "sampling_pass isDel ub rnd xs st = (ev, st') \<Longrightarrow> filter is_stderr ev = []"
proof (induction xs arbitrary: st ev st')
  case Nil
  then show ?case by auto
next
  case (Cons x xs)
  obtain i r where x: "x = (i, r)" by (cases x)
  from Cons.prems obtain ev0 st0 evs where
    s: "sampling_step isDel ub rnd i r st = (ev0, st0)"
    and p: "sampling_pass isDel ub rnd xs st0 = (evs, st')" and ev: "ev = Increment # ev0 @ evs"
    unfolding x by (rule sampling_pass_Cons)
  show ?case using Cons.IH[OF p] sampling_step_quiet[OF s] by (simp add: ev)
qed

lemma recording_pass_quiet: "filter is_stderr (recording_pass isDel xs) = []"
  by (induction xs) auto

text \<open>Without a purge bitmap nothing is printed, and the declared record count is not read.\<close>

lemma no_purge_quiet:
  assumes "build_no_purge fpath it isDel ub rnd recId0 = (tr, out)"
  shows "filter is_stderr tr = []"
proof -
  from assms obtain ev1 st where
    s: "sampling_pass isDel ub rnd (increments it) (init_locals recId0) = (ev1, st)"
    and tr: "tr = (ev1 @ emptyCheckProtect (sampled st) (rec st))
              @ Lock # Prepare (recId st + 1) fpath # IterReset
              # (recording_pass isDel (increments it) @ finish)"
    by (rule build_no_purge_shape)
  show ?thesis
    unfolding tr using sampling_pass_quiet[OF s] recording_pass_quiet
    by (simp add: emptyCheckProtect_def finish_def)
qed

lemma purge_count_mismatch:
  assumes "build_by_iter sch fpath it isDel (Some P) rnd recId0 = (tr, out)"
    and "P \<noteq> []" and "getStore it = Some store" and "Lock \<in> set tr"
    and "length P - length (filter id P) \<noteq> numDataRows store"
  shows "Stderr (ErrPhysicNum 222 (length P - length (filter id P)) (numDataRows store)
                   (length P)) \<in> set (pass1 tr)
       \<and> (out = Completed
            \<longrightarrow> Stderr (ErrPhysicNum 249 (length P - length (filter id P)) (numDataRows store)
                          (length P)) \<in> set (pass2 tr))"
proof -
  let ?ub = "sampleUpperBound (sampleRatio (m_dictZipSampleRatio sch) (dataInflateSize store))"
  have "length (filter id P) + length (filter Not P) = length P"
    using sum_length_filter_compl[of id P] by (simp add: comp_def)
  then have n: "length (filter Not P) = length P - length (filter id P)" by simp
  have b: "build_purge fpath it store isDel P ?ub rnd recId0 = (tr, out)"
    using assms(1,2,3,4) by (auto simp: build_by_iter_def Let_def split: if_splits)
  from b show ?thesis
  proof (cases rule: build_purge_shape)
    case no_bitmap
    then show ?thesis using assms(4) by simp
  next
    case (abort1 del ev1)
    have "\<forall>e\<in>set ev1. sampling_event e" using abort1(2) by (rule sampling_loop_events)
    then show ?thesis using assms(4) abort1(3) by auto
  next
    case (abort2 del ev1 st ev2)
    let ?chk = "check_physicNum 222 (physicId st) (numDataRows store) (length P)"
    let ?pre = "ev1 @ ?chk @ emptyCheckProtect (sampled st) (rec st)"
    have pre: "\<forall>e\<in>set ?pre. sampling_event e"
      using sampling_loop_events[OF abort2(2)] emptyCheckProtect_sampling
        check_physicNum_sampling by auto
    have p1: "pass1 tr = ?pre @ [Lock, Prepare (newPhysicId st) fpath]"
      unfolding abort2(4) by (rule pass1_split[OF pre])
    have "physicId st = physical_of P (length P)"
      using sampling_loop_Inr[OF abort2(2)] by simp
    then have "physicId st = length P - length (filter id P)"
      by (simp add: physical_of_length n)
    then have "?chk = [Stderr (ErrPhysicNum 222 (length P - length (filter id P))
                                 (numDataRows store) (length P))]"
      using assms(5) by (simp add: check_physicNum_def)
    then show ?thesis using abort2(5) by (simp add: p1)
  next
    case (completed del ev1 st ev2 st2)
    let ?chk = "check_physicNum 222 (physicId st) (numDataRows store) (length P)"
    let ?chk2 = "check_physicNum 249 (physicId st2) (numDataRows store) (length P)"
    let ?pre = "ev1 @ ?chk @ emptyCheckProtect (sampled st) (rec st)"
    have pre: "\<forall>e\<in>set ?pre. sampling_event e"
      using sampling_loop_events[OF completed(2)] emptyCheckProtect_sampling
        check_physicNum_sampling by auto
    have p1: "pass1 tr = ?pre @ [Lock, Prepare (newPhysicId st) fpath]"
      unfolding completed(4) by (rule pass1_split[OF pre])
    have p2: "pass2 tr = ev2 @ ?chk2 @ finish"
      unfolding completed(4) by (rule pass2_split[OF pre])
    have "physicId st = physical_of P (length P)"
      using sampling_loop_Inr[OF completed(2)] by simp
    then have "physicId st = length P - length (filter id P)"
      by (simp add: physical_of_length n)
    then have c1: "?chk = [Stderr (ErrPhysicNum 222 (length P - length (filter id P))
                                 (numDataRows store) (length P))]"
      using assms(5) by (simp add: check_physicNum_def)
    have "physicId st2 = physical_of P (length P)"
      using recording_loop_Inr[OF completed(3)] by simp
    then have "physicId st2 = length P - length (filter id P)"
      by (simp add: physical_of_length n)
    then have c2: "?chk2 = [Stderr (ErrPhysicNum 249 (length P - length (filter id P))
                                 (numDataRows store) (length P))]"
      using assms(5) by (simp add: check_physicNum_def)
    show ?thesis using c1 c2 by (simp add: p1 p2)
  qed
qed

text \<open>
  C6 as stated fails, with and without a purge bitmap. In scenario E (purge bitmap) each
  pass walks two physical ids while the store declares three records: the messages are
  printed and the build goes on to completion. In scenario G (no purge bitmap) the
  iterator yields two ids while the store declares three: nothing is printed and the
  build completes.
\<close>

theorem C6_counterexample:
  "length (visits (pass1 (fst scenario_E)))
     \<noteq> numDataRows (the (getStore (store_of [''r0'', ''r1'', ''r2''])))
   \<and> length (visits (pass2 (fst scenario_E)))
     \<noteq> numDataRows (the (getStore (store_of [''r0'', ''r1'', ''r2''])))
   \<and> snd scenario_E = Completed
   \<and> length (visits (pass1 (fst scenario_G))) = 2
   \<and> length (visits (pass2 (fst scenario_G))) = 2
   \<and> filter is_stderr (fst scenario_G) = []
   \<and> snd scenario_G = Completed"
  by (simp add: scenario_E_def scenario_G_def scenario_defs build_defs)

text \<open>
  C6, amended. With a purge bitmap, when pass 1 runs to its end (the build reaches
  \<^verbatim>\<open>lock.lock()\<close>) and the number of physical ids it counted, the number of non-purged
  logical ids, differs from the record count the store declares, the build prints an
  error message with the count (\<^verbatim>\<open>physicId\<close>), the declared count (\<^verbatim>\<open>physicNum\<close>) and
  \<^verbatim>\<open>logicNum\<close>; when pass 2 runs to its end too, it prints the message again. Without a
  purge bitmap the build makes no such check: it does not read the declared count, prints
  nothing and completes, whatever number of ids the iterator yields.
\<close>

theorem C6_count_mismatch_reported:
  assumes "build_by_iter sch fpath it isDel isPurged rnd recId0 = (tr, out)"
    and "getStore it = Some store" and "0 \<le> m_dictZipSampleRatio sch"
  shows "(\<forall>P. isPurged = Some P \<and> P \<noteq> [] \<and> Lock \<in> set tr
              \<and> length P - length (filter id P) \<noteq> numDataRows store
            \<longrightarrow> Stderr (ErrPhysicNum 222 (length P - length (filter id P)) (numDataRows store)
                          (length P)) \<in> set (pass1 tr)
              \<and> (out = Completed
                   \<longrightarrow> Stderr (ErrPhysicNum 249 (length P - length (filter id P))
                                 (numDataRows store) (length P)) \<in> set (pass2 tr)))
       \<and> (isPurged = None \<or> isPurged = Some []
            \<longrightarrow> filter is_stderr tr = [] \<and> out = Completed
              \<and> (\<forall>n. build_by_iter sch fpath (it\<lparr>getStore := Some (store\<lparr>numDataRows := n\<rparr>)\<rparr>)
                         isDel isPurged rnd recId0 = (tr, out)))"
proof -
  have purge: "Stderr (ErrPhysicNum 222 (length P - length (filter id P)) (numDataRows store)
                          (length P)) \<in> set (pass1 tr)
              \<and> (out = Completed
                   \<longrightarrow> Stderr (ErrPhysicNum 249 (length P - length (filter id P))
                                 (numDataRows store) (length P)) \<in> set (pass2 tr))"
    if "isPurged = Some P" and "P \<noteq> []" and "Lock \<in> set tr"
      and "length P - length (filter id P) \<noteq> numDataRows store" for P
    using purge_count_mismatch[OF assms(1)[unfolded that(1)] that(2) assms(2) that(3,4)] .
  have none: "filter is_stderr tr = [] \<and> out = Completed
              \<and> (\<forall>n. build_by_iter sch fpath (it\<lparr>getStore := Some (store\<lparr>numDataRows := n\<rparr>)\<rparr>)
                         isDel isPurged rnd recId0 = (tr, out))"
    if np: "isPurged = None \<or> isPurged = Some []"
  proof -
    let ?ub = "sampleUpperBound (sampleRatio (m_dictZipSampleRatio sch) (dataInflateSize store))"
    have b: "build_no_purge fpath it isDel ?ub rnd recId0 = (tr, out)"
      using assms np by (auto simp: build_by_iter_def)
    have ind: "build_by_iter sch fpath (it\<lparr>getStore := Some (store\<lparr>numDataRows := n\<rparr>)\<rparr>)
                         isDel isPurged rnd recId0 = (tr, out)" for n
      using assms(3) np b by (auto simp: build_by_iter_def build_no_purge_def)
    show ?thesis using no_purge_quiet[OF b] no_purge_records(2)[OF b] ind by simp
  qed
  show ?thesis using purge none by blast
qed

theorem C6_count_mismatch_reported_witness:
  "getStore (store_of [''r0'', ''r1'', ''r2'']) = Some \<lparr> dataInflateSize = 6, numDataRows = 3 \<rparr>
   \<and> (0::real) \<le> m_dictZipSampleRatio default_schema
   \<and> [False, True, False] \<noteq> []
   \<and> Lock \<in> set (fst scenario_E)
   \<and> length [False, True, False] - length (filter id [False, True, False])
       \<noteq> numDataRows \<lparr> dataInflateSize = 6, numDataRows = 3 \<rparr>
   \<and> snd scenario_E = Completed
   \<and> Stderr (ErrPhysicNum 222 2 3 3) \<in> set (pass1 (fst scenario_E))
   \<and> Stderr (ErrPhysicNum 249 2 3 3) \<in> set (pass2 (fst scenario_E))
   \<and> filter is_stderr (fst scenario_G) = [] \<and> snd scenario_G = Completed
   \<and> length (visits (pass1 (fst scenario_G))) = 2"
proof -
  have c: "snd scenario_E = Completed"
    by (simp add: scenario_E_def scenario_defs build_defs)
  have h1: "build_by_iter default_schema ''out'' (store_of [''r0'', ''r1'', ''r2''])
     (Some (\<lambda>i. False)) (Some [False, True, False]) always_sample 0 = (fst scenario_E, snd scenario_E)"
    by (simp add: scenario_E_def)
  have h2: "getStore (store_of [''r0'', ''r1'', ''r2''])
              = Some \<lparr> dataInflateSize = 6, numDataRows = 3 \<rparr>"
    by (simp add: store_of_def)
  have h3: "(0::real) \<le> m_dictZipSampleRatio default_schema" by (simp add: default_schema_def)
  have h4: "Lock \<in> set (fst scenario_E)"
    by (simp add: scenario_E_def scenario_defs build_defs)
  have h5: "length [False, True, False] - length (filter id [False, True, False])
       \<noteq> numDataRows \<lparr> dataInflateSize = 6, numDataRows = 3 \<rparr>" by simp
  have g1: "build_by_iter default_schema ''out''
     \<lparr> getStore = Some \<lparr> dataInflateSize = 6, numDataRows = 3 \<rparr>,
       increments = [(0, ''r0''), (1, ''r1'')],
       seekExact = map_of [(0, ''r0''), (1, ''r1'')] \<rparr>
     None None always_sample 0 = (fst scenario_G, snd scenario_G)"
    by (simp add: scenario_G_def)
  have g2: "getStore \<lparr> getStore = Some \<lparr> dataInflateSize = 6, numDataRows = 3 \<rparr>,
       increments = [(0, ''r0''), (1, ''r1'')],
       seekExact = map_of [(0, ''r0''), (1, ''r1'')] \<rparr>
     = Some \<lparr> dataInflateSize = 6, numDataRows = 3 \<rparr>" by simp
  have v: "length (visits (pass1 (fst scenario_G))) = 2"
    by (simp add: scenario_G_def scenario_defs build_defs)
  have E: "Stderr (ErrPhysicNum 222 2 3 3) \<in> set (pass1 (fst scenario_E))
         \<and> Stderr (ErrPhysicNum 249 2 3 3) \<in> set (pass2 (fst scenario_E))"
    using C6_count_mismatch_reported[OF h1 h2 h3] h4 h5 c
    by (simp add: numeral_2_eq_2 numeral_3_eq_3)
  have G: "filter is_stderr (fst scenario_G) = [] \<and> snd scenario_G = Completed"
    using C6_count_mismatch_reported[OF g1 g2 h3] by simp
  show ?thesis using E G c h2 h3 h4 h5 v by simp
qed



























subsection \<open>The claims about load and save\<close>

lemma endsWith_append [simp]: "endsWith (p @ x) x"
  by (simp add: endsWith_def)

text \<open>
  C9. \<^verbatim>\<open>save\<close> hands the store to exactly the serializer of the store's own backend
  variant, and to no other: the file it writes, at the normalised path, is written by
  that variant's \<^verbatim>\<open>save_mmap\<close>. For a store of none of the three known variants it fails
  explicitly, throwing \<^verbatim>\<open>std::invalid_argument("Unexpected")\<close>, and writes nothing.
\<close>

theorem C9_save_dispatch:
  "(variant st \<noteq> OtherBlobStore
      \<longrightarrow> save st p fs = Inr (fs(save_fpath p \<mapsto> (variant st, st))))
   \<and> (variant st = OtherBlobStore \<longrightarrow> save st p fs = Inl InvalidArgument)"
  by (cases "variant st") (simp_all add: save_def)

theorem C9_save_dispatch_witness:
  "variant \<lparr> variant = DictZipBlobStore, payload = [''a''] \<rparr> \<noteq> OtherBlobStore
   \<and> save \<lparr> variant = DictZipBlobStore, payload = [''a''] \<rparr> ''seg'' Map.empty
       = Inr (Map.empty(''seg.nlt'' \<mapsto>
                (DictZipBlobStore, \<lparr> variant = DictZipBlobStore, payload = [''a''] \<rparr>)))
   \<and> variant \<lparr> variant = OtherBlobStore, payload = [''a''] \<rparr> = OtherBlobStore
   \<and> save \<lparr> variant = OtherBlobStore, payload = [''a''] \<rparr> ''seg'' Map.empty
       = Inl InvalidArgument"
proof -
  have p: "save_fpath ''seg'' = ''seg.nlt''" by (simp add: save_fpath_def endsWith_def)
  show ?thesis
    using C9_save_dispatch[of "\<lparr> variant = DictZipBlobStore, payload = [''a''] \<rparr>" "''seg''" Map.empty]
      C9_save_dispatch[of "\<lparr> variant = OtherBlobStore, payload = [''a''] \<rparr>" "''seg''" Map.empty]
    by (simp add: p)
qed

text \<open>
  C10. \<^verbatim>\<open>save\<close> and \<^verbatim>\<open>load\<close> normalise the path in the same way: each appends \<^verbatim>\<open>.nlt\<close> if
  and only if the path does not already end with it (so a normalised path is left as it
  is). Hence, for every path \<open>p\<close>, whether or not it carries the suffix, \<^verbatim>\<open>load(p)\<close> after a
  \<^verbatim>\<open>save(p)\<close> that succeeded reads exactly the file \<^verbatim>\<open>save\<close> wrote.
\<close>

theorem C10_save_load_path:
  "save_fpath p = load_fpath p
   \<and> (endsWith p ''.nlt'' \<longrightarrow> save_fpath p = p)
   \<and> (\<not> endsWith p ''.nlt'' \<longrightarrow> save_fpath p = p @ ''.nlt'')
   \<and> endsWith (save_fpath p) ''.nlt''
   \<and> load_fpath (save_fpath p) = save_fpath p
   \<and> (save st p fs = Inr fs'
        \<longrightarrow> fs' (save_fpath p) = Some (variant st, st) \<and> load p fs' = Inr st)"
proof -
  have e: "endsWith (p @ ''.nlt'') ''.nlt''" by (rule endsWith_append)
  have 1: "save_fpath p = load_fpath p" by (simp add: save_fpath_def load_fpath_def)
  have 2: "endsWith (save_fpath p) ''.nlt''" using e by (simp add: save_fpath_def)
  have 3: "load_fpath (save_fpath p) = save_fpath p" using 2 by (simp add: load_fpath_def)
  have 4: "save st p fs = Inr fs'
        \<longrightarrow> fs' (save_fpath p) = Some (variant st, st) \<and> load p fs' = Inr st"
    by (auto simp: save_def load_def Let_def 1 split: if_splits)
  show ?thesis using 1 2 3 4 by (simp add: save_fpath_def)
qed

theorem C10_save_load_path_witness:
  "\<not> endsWith ''seg/store'' ''.nlt'' \<and> save_fpath ''seg/store'' = ''seg/store.nlt''
   \<and> endsWith ''seg/store.nlt'' ''.nlt'' \<and> save_fpath ''seg/store.nlt'' = ''seg/store.nlt''
   \<and> load_fpath ''seg/store'' = ''seg/store.nlt''
   \<and> save \<lparr> variant = DictZipBlobStore, payload = [''a''] \<rparr> ''seg/store'' Map.empty
       = Inr (Map.empty(''seg/store.nlt'' \<mapsto>
                (DictZipBlobStore, \<lparr> variant = DictZipBlobStore, payload = [''a''] \<rparr>)))
   \<and> load ''seg/store''
        (Map.empty(''seg/store.nlt'' \<mapsto>
                (DictZipBlobStore, \<lparr> variant = DictZipBlobStore, payload = [''a''] \<rparr>)))
       = Inr \<lparr> variant = DictZipBlobStore, payload = [''a''] \<rparr>"
proof -
  have n1: "\<not> endsWith ''seg/store'' ''.nlt''" by (simp add: endsWith_def)
  have n2: "endsWith ''seg/store.nlt'' ''.nlt''" by (simp add: endsWith_def)
  have s: "save \<lparr> variant = DictZipBlobStore, payload = [''a''] \<rparr> ''seg/store'' Map.empty
       = Inr (Map.empty(''seg/store.nlt'' \<mapsto>
                (DictZipBlobStore, \<lparr> variant = DictZipBlobStore, payload = [''a''] \<rparr>)))"
    by (simp add: save_def save_fpath_def n1)
  show ?thesis
    using C10_save_load_path[of "''seg/store''"
        "\<lparr> variant = DictZipBlobStore, payload = [''a''] \<rparr>" Map.empty
        "Map.empty(''seg/store.nlt'' \<mapsto>
                (DictZipBlobStore, \<lparr> variant = DictZipBlobStore, payload = [''a''] \<rparr>))"]
      C10_save_load_path[of "''seg/store.nlt''"
        "\<lparr> variant = DictZipBlobStore, payload = [''a''] \<rparr>" Map.empty]
      n1 n2 s
    by (simp add: save_fpath_def load_fpath_def)
qed


end
